theory Spec2Isabelle
  imports Complex_Main "HOL-Library.Option_ord" "HOL-Library.Char_ord" "HOL-Library.List_Lexorder"
begin

section \<open>Network log parser: text, patterns and the matching engine\<close>

text \<open>
  The program (\<^verbatim>\<open>scripts/network_log_parser.py\<close>) reads a text file into a list of
  lines, runs a fixed table of regular expressions over every line and accumulates
  counters and match records, from which a report is rendered.

  Text is modelled as \<^typ>\<open>string\<close>: a character is read as the code point of the same
  number, so the model covers text whose code points lie below 256. The character classes
  \<^verbatim>\<open>\d\<close>, \<^verbatim>\<open>\w\<close>, \<^verbatim>\<open>\s\<close> and \<^verbatim>\<open>str.strip\<close> are the ones of Python 3 on that
  range.
\<close>

subsection \<open>Character classes\<close>

definition is_digit :: "char \<Rightarrow> bool" where
  "is_digit c = (CHR ''0'' \<le> c \<and> c \<le> CHR ''9'')"

definition is_upper :: "char \<Rightarrow> bool" where
  "is_upper c = (CHR ''A'' \<le> c \<and> c \<le> CHR ''Z'')"

definition is_lower :: "char \<Rightarrow> bool" where
  "is_lower c = (CHR ''a'' \<le> c \<and> c \<le> CHR ''z'')"

definition is_space :: "char \<Rightarrow> bool" where
  "is_space c = ((CHR 0x09 \<le> c \<and> c \<le> CHR 0x0D) \<or> (CHR 0x1C \<le> c \<and> c \<le> CHR 0x20)
                 \<or> c = CHR 0x85 \<or> c = CHR 0xA0)"

definition is_word :: "char \<Rightarrow> bool" where
  "is_word c = (is_digit c \<or> is_upper c \<or> is_lower c \<or> c = CHR ''_''
                \<or> c = CHR 0xAA \<or> c = CHR 0xB2 \<or> c = CHR 0xB3 \<or> c = CHR 0xB5
                \<or> c = CHR 0xB9 \<or> c = CHR 0xBA \<or> (CHR 0xBC \<le> c \<and> c \<le> CHR 0xBE)
                \<or> (CHR 0xC0 \<le> c \<and> c \<le> CHR 0xD6) \<or> (CHR 0xD8 \<le> c \<and> c \<le> CHR 0xF6)
                \<or> CHR 0xF8 \<le> c)"

definition is_hex :: "char \<Rightarrow> bool" where
  "is_hex c = (is_digit c \<or> (CHR ''A'' \<le> c \<and> c \<le> CHR ''F'') \<or> (CHR ''a'' \<le> c \<and> c \<le> CHR ''f''))"

definition is_alpha_ascii :: "char \<Rightarrow> bool" where
  "is_alpha_ascii c = (is_upper c \<or> is_lower c)"

definition not_newline :: "char \<Rightarrow> bool" where
  "not_newline c = (c \<noteq> CHR 0x0A)"

text \<open>
  The lower-case form of a character. A small letter is its capital plus 32, and no
  capital has the bit of weight 32 set, so adding 32 is setting that bit. No character of
  the range beyond the letters A to Z changes under \<^verbatim>\<open>re.IGNORECASE\<close> into a letter of
  the patterns.
\<close>

definition to_lower :: "char \<Rightarrow> char" where
  "to_lower c =
     (if is_upper c
      then (case c of Char b0 b1 b2 b3 b4 b5 b6 b7 \<Rightarrow> Char b0 b1 b2 b3 b4 True b6 b7)
      else c)"

text \<open>A literal character: exact, or under \<^verbatim>\<open>re.IGNORECASE\<close>.\<close>

definition lit :: "char \<Rightarrow> char \<Rightarrow> bool" where
  "lit a c = (c = a)"

definition ilit :: "char \<Rightarrow> char \<Rightarrow> bool" where
  "ilit a c = (to_lower c = to_lower a)"

definition one_of :: "string \<Rightarrow> char \<Rightarrow> bool" where
  "one_of cs c = (c \<in> set cs)"

subsection \<open>Regular expressions\<close>

text \<open>
  The constructs the pattern table uses. A repetition is always over a single character
  class in the table (\<^verbatim>\<open>\d{1,3}\<close>, \<^verbatim>\<open>\s+\<close>, \<^verbatim>\<open>.*?\<close>, \<^verbatim>\<open>d?\<close>), with a lower bound,
  an optional upper bound and a greedy flag. \<open>Grp\<close> is the named group of a pattern;
  unnamed groups only bracket, since the program never reads them.
\<close>

datatype rx =
    Eps
  | Cls "char \<Rightarrow> bool"
  | Seq rx rx
  | Alt rx rx
  | Rep "char \<Rightarrow> bool" nat "nat option" bool
  | Bol
  | Wb
  | Grp rx

text \<open>
  A cursor is the character before the position (if any) and the text from the position
  on. A match state is a cursor and the text of the named group, once it has closed.
\<close>

type_synonym cursor = "char option \<times> string"
type_synonym mstate = "cursor \<times> string option"

fun adv :: "nat \<Rightarrow> cursor \<Rightarrow> cursor" where
  "adv 0 c = c"
| "adv (Suc k) (p, []) = (p, [])"
| "adv (Suc k) (p, x # xs) = adv k (Some x, xs)"

definition word_before :: "cursor \<Rightarrow> bool" where
  "word_before c = (case fst c of None \<Rightarrow> False | Some a \<Rightarrow> is_word a)"

definition word_after :: "cursor \<Rightarrow> bool" where
  "word_after c = (case snd c of [] \<Rightarrow> False | a # _ \<Rightarrow> is_word a)"

definition counts :: "nat \<Rightarrow> nat option \<Rightarrow> bool \<Rightarrow> nat \<Rightarrow> nat list" where
  "counts lo hi greedy avail =
     (let top = (case hi of None \<Rightarrow> avail | Some h \<Rightarrow> min h avail);
          ks = [lo ..< Suc top]
      in if greedy then rev ks else ks)"

text \<open>
  The backtracking matcher: all the ways the expression can match at a cursor, in the
  order a backtracking engine tries them (the first is the match the engine reports).
\<close>

fun backtrack :: "rx \<Rightarrow> cursor \<Rightarrow> string option \<Rightarrow> mstate list" where
  "backtrack Eps c g = [(c, g)]"
| "backtrack (Cls f) c g =
     (case snd c of [] \<Rightarrow> [] | x # xs \<Rightarrow> if f x then [((Some x, xs), g)] else [])"
| "backtrack (Seq a b) c g = concat (map (\<lambda>(c', g'). backtrack b c' g') (backtrack a c g))"
| "backtrack (Alt a b) c g = backtrack a c g @ backtrack b c g"
| "backtrack (Rep f lo hi greedy) c g =
     map (\<lambda>k. (adv k c, g)) (counts lo hi greedy (length (takeWhile f (snd c))))"
| "backtrack Bol c g = (if fst c = None then [(c, g)] else [])"
| "backtrack Wb c g = (if word_before c \<noteq> word_after c then [(c, g)] else [])"
| "backtrack (Grp a) c g =
     map (\<lambda>(c', _). (c', Some (take (length (snd c) - length (snd c')) (snd c)))) (backtrack a c None)"

text \<open>
  A match object: the matched text (group 0), the named group, and the cursor at the end
  of the match.
\<close>

record match =
  whole :: string
  named :: "string option"
  stop :: cursor

definition mk_match :: "cursor \<Rightarrow> mstate \<Rightarrow> match" where
  "mk_match c m = \<lparr> whole = take (length (snd c) - length (snd (fst m))) (snd c),
                    named = snd m, stop = fst m \<rparr>"

definition match_at :: "rx \<Rightarrow> cursor \<Rightarrow> match option" where
  "match_at r c = (case backtrack r c None of [] \<Rightarrow> None | m # _ \<Rightarrow> Some (mk_match c m))"

text \<open>\<^verbatim>\<open>pattern.search\<close>: the first position, left to right, where the pattern matches.\<close>

fun search_from :: "rx \<Rightarrow> char option \<Rightarrow> string \<Rightarrow> match option" where
  "search_from r p [] = match_at r (p, [])"
| "search_from r p (x # xs) =
     (case match_at r (p, x # xs) of
        Some m \<Rightarrow> Some m
      | None \<Rightarrow> search_from r (Some x) xs)"

definition search :: "rx \<Rightarrow> string \<Rightarrow> match option" where
  "search r s = search_from r None s"

text \<open>
  \<^verbatim>\<open>pattern.finditer\<close>: the matches that do not overlap, left to right. After a match
  the scan goes on from its end: \<open>skip\<close> counts the characters still covered by the
  last match. After an empty match the engine asks for a match that advances at the
  same position, and moves one character on when there is none.
\<close>

definition advancing :: "cursor \<Rightarrow> mstate \<Rightarrow> bool" where
  "advancing c m = (length (snd (fst m)) < length (snd c))"

definition matches_here :: "rx \<Rightarrow> cursor \<Rightarrow> match list \<times> nat" where
  "matches_here r c =
     (case backtrack r c None of
        [] \<Rightarrow> ([], 0)
      | m # _ \<Rightarrow>
          if advancing c m then ([mk_match c m], length (whole (mk_match c m)) - 1)
          else (case filter (advancing c) (backtrack r c None) of
                  [] \<Rightarrow> ([mk_match c m], 0)
                | m' # _ \<Rightarrow> ([mk_match c m, mk_match c m'], length (whole (mk_match c m')) - 1)))"

fun finditer_from :: "rx \<Rightarrow> nat \<Rightarrow> char option \<Rightarrow> string \<Rightarrow> match list" where
  "finditer_from r skip p [] = (if skip = 0 then fst (matches_here r (p, [])) else [])"
| "finditer_from r skip p (x # xs) =
     (if skip = 0
      then (let (found, k) = matches_here r (p, x # xs)
            in found @ finditer_from r k (Some x) xs)
      else finditer_from r (skip - 1) (Some x) xs)"

definition finditer :: "rx \<Rightarrow> string \<Rightarrow> match list" where
  "finditer r s = finditer_from r 0 None s"

text \<open>The text of the named group of a match; \<^verbatim>\<open>match.group(name)\<close>.\<close>

definition group :: "match \<Rightarrow> string" where
  "group m = (case named m of None \<Rightarrow> [] | Some t \<Rightarrow> t)"

text \<open>\<^verbatim>\<open>pattern.findall\<close> on a pattern with one group: the group of every match.\<close>

definition findall :: "rx \<Rightarrow> string \<Rightarrow> string list" where
  "findall r s = map group (finditer r s)"

subsection \<open>The pattern table\<close>

fun seqs :: "rx list \<Rightarrow> rx" where
  "seqs [] = Eps"
| "seqs [r] = r"
| "seqs (r # rs) = Seq r (seqs rs)"

fun alts :: "rx list \<Rightarrow> rx" where
  "alts [] = Eps"
| "alts [r] = r"
| "alts (r # rs) = Alt r (alts rs)"

text \<open>A literal text, exact (\<open>str\<close>) or under \<^verbatim>\<open>re.IGNORECASE\<close> (\<open>istr\<close>).\<close>

definition str :: "string \<Rightarrow> rx" where
  "str s = seqs (map (\<lambda>a. Cls (lit a)) s)"

definition istr :: "string \<Rightarrow> rx" where
  "istr s = seqs (map (\<lambda>a. Cls (ilit a)) s)"

definition exactly :: "nat \<Rightarrow> (char \<Rightarrow> bool) \<Rightarrow> rx" where
  "exactly n f = Rep f n (Some n) True"

definition between :: "nat \<Rightarrow> nat \<Rightarrow> (char \<Rightarrow> bool) \<Rightarrow> rx" where
  "between lo hi f = Rep f lo (Some hi) True"

definition plus :: "(char \<Rightarrow> bool) \<Rightarrow> rx" where
  "plus f = Rep f 1 None True"

definition star :: "(char \<Rightarrow> bool) \<Rightarrow> rx" where
  "star f = Rep f 0 None True"

definition lazy_star :: "(char \<Rightarrow> bool) \<Rightarrow> rx" where
  "lazy_star f = Rep f 0 None False"

definition opt :: "(char \<Rightarrow> bool) \<Rightarrow> rx" where
  "opt f = Rep f 0 (Some 1) True"

datatype pat =
    Timestamp_syslog | Timestamp_iso | Ip_address | Mac_address | Port
  | Firewall_deny | Firewall_allow | Dns_query | Dns_failure | Connection_error
  | Latency | Packet_loss | Dhcp_event

definition hms :: "rx list" where
  "hms = [exactly 2 is_digit, Cls (lit CHR '':''), exactly 2 is_digit, Cls (lit CHR '':''),
          exactly 2 is_digit]"

definition domain_char :: "char \<Rightarrow> bool" where
  "domain_char c = (is_alpha_ascii c \<or> is_digit c \<or> one_of ''._-'' c)"

definition timed_out :: "rx" where
  "timed_out = seqs [istr ''time'', opt (ilit CHR ''d''), star is_space, istr ''out'']"

fun PATTERNS :: "pat \<Rightarrow> rx" where
  "PATTERNS Timestamp_syslog =
     Seq Bol (Grp (seqs ([exactly 3 is_word, plus is_space, between 1 2 is_digit,
                          plus is_space] @ hms)))"
| "PATTERNS Timestamp_iso =
     Grp (seqs ([exactly 4 is_digit, Cls (lit CHR ''-''), exactly 2 is_digit,
                 Cls (lit CHR ''-''), exactly 2 is_digit, Cls (one_of ''T '')] @ hms))"
| "PATTERNS Ip_address =
     seqs [Wb, Grp (seqs [between 1 3 is_digit, Cls (lit CHR ''.''), between 1 3 is_digit,
                          Cls (lit CHR ''.''), between 1 3 is_digit, Cls (lit CHR ''.''),
                          between 1 3 is_digit]), Wb]"
| "PATTERNS Mac_address =
     Grp (seqs (concat (replicate 5 [exactly 2 is_hex, Cls (one_of '':-'')])
                @ [exactly 2 is_hex]))"
| "PATTERNS Port =
     seqs [alts (map istr [''SPT'', ''SRC_PORT'', ''sport'', ''srcport'', ''DPT'', ''DST_PORT'',
                           ''dport'', ''dstport'']),
           plus (one_of ''=: ''), Grp (between 1 5 is_digit)]"
| "PATTERNS Firewall_deny =
     alts (map istr [''DROP'', ''DENY'', ''BLOCK'', ''REJECT'', ''REFUSED''])"
| "PATTERNS Firewall_allow = alts (map istr [''ACCEPT'', ''ALLOW'', ''PERMIT''])"
| "PATTERNS Dns_query =
     seqs [alts [istr ''query'', istr ''lookup'',
                 Seq (istr ''resolve'') (opt (\<lambda>c. ilit CHR ''d'' c \<or> ilit CHR ''s'' c))],
           plus is_space, lazy_star not_newline,
           Grp (seqs [plus domain_char, Cls (lit CHR ''.''),
                      Rep is_alpha_ascii 2 None True])]"
| "PATTERNS Dns_failure =
     alts [istr ''NXDOMAIN'', istr ''SERVFAIL'', istr ''REFUSED'',
           seqs [istr ''no'', plus is_space, istr ''server'', opt (ilit CHR ''s''),
                 plus is_space, istr ''could'', plus is_space, istr ''be'', plus is_space,
                 istr ''reached''],
           timed_out,
           seqs [istr ''resolution'', plus is_space, istr ''failed'']]"
| "PATTERNS Connection_error =
     alts [seqs [istr ''connection'', plus is_space,
                 alts [istr ''refused'', istr ''reset'', timed_out, istr ''closed'',
                       istr ''failed'']],
           istr ''unreachable'',
           seqs [istr ''no'', plus is_space, istr ''route''],
           seqs [istr ''link'', plus is_space, istr ''down''],
           seqs [istr ''interface'', plus is_space, istr ''down'']]"
| "PATTERNS Latency =
     seqs [alts (map istr [''time'', ''latency'', ''rtt'', ''delay'']),
           plus (one_of ''=: ''),
           Grp (seqs [plus is_digit, opt (lit CHR ''.''), star is_digit]),
           star is_space, istr ''ms'']"
| "PATTERNS Packet_loss =
     seqs [Grp (seqs [plus is_digit, opt (lit CHR ''.''), star is_digit]),
           opt (lit CHR ''%''), star is_space,
           Alt (Seq (istr ''packet'') (plus is_space)) Eps,
           istr ''loss'']"
| "PATTERNS Dhcp_event =
     alts (map istr [''DHCPDISCOVER'', ''DHCPOFFER'', ''DHCPREQUEST'', ''DHCPACK'', ''DHCPNAK'',
                     ''DHCPRELEASE'', ''DHCPDECLINE''])"

text \<open>A search used as a condition: \<^verbatim>\<open>if PATTERNS[name].search(line)\<close>.\<close>

definition found :: "pat \<Rightarrow> string \<Rightarrow> bool" where
  "found n line = (search (PATTERNS n) line \<noteq> None)"

section \<open>Python built-ins the parser relies on\<close>

subsection \<open>Errors\<close>

datatype error = ValueError string | SystemExit int

subsection \<open>\<^verbatim>\<open>str.strip\<close>\<close>

definition strip :: "string \<Rightarrow> string" where
  "strip s = rev (dropWhile is_space (rev (dropWhile is_space s)))"

subsection \<open>\<^verbatim>\<open>float\<close> of a decimal numeral\<close>

text \<open>
  A Python float is an IEEE 754 double. A double read from text is either a rational
  number or infinity; \<^verbatim>\<open>float\<close> rounds the decimal value to the nearest double, ties to
  the even significand, and answers \<^verbatim>\<open>inf\<close> beyond the largest double.
\<close>

datatype pyfloat = Fin rat | PInf

definition digit_val :: "char \<Rightarrow> int" where
  "digit_val c = int (of_char c) - 48"

definition int_of_digits :: "string \<Rightarrow> int" where
  "int_of_digits ds = foldl (\<lambda>a c. 10 * a + digit_val c) 0 ds"

function bit_length :: "int \<Rightarrow> nat" where
  "bit_length n = (if n \<le> 0 then 0 else Suc (bit_length (n div 2)))"
  by pat_completeness auto
termination
  by (relation "measure nat") auto

definition pow2 :: "int \<Rightarrow> rat" where
  "pow2 e = (if 0 \<le> e then 2 ^ nat e else 1 / 2 ^ nat (- e))"

text \<open>The binary exponent \<open>e\<close> of \<open>a / b\<close>, for positive \<open>a\<close> and \<open>b\<close>: \<open>2^e \<le> a / b < 2^(e+1)\<close>.\<close>

definition binexp :: "int \<Rightarrow> int \<Rightarrow> int" where
  "binexp a b =
     (let e0 = int (bit_length a) - int (bit_length b)
      in if (if 0 \<le> e0 then b * 2 ^ nat e0 \<le> a else b \<le> a * 2 ^ nat (- e0))
         then e0 else e0 - 1)"

text \<open>The integer nearest to \<open>p / q\<close>, for \<open>0 < q\<close>, a tie going to the even one.\<close>

definition round_div :: "int \<Rightarrow> int \<Rightarrow> int" where
  "round_div p q =
     (let f = p div q; r = p mod q
      in if 2 * r < q then f else if q < 2 * r then f + 1 else if even f then f else f + 1)"

text \<open>
  The double nearest to \<open>a / b\<close>, for \<open>0 \<le> a\<close> and \<open>0 < b\<close>: a multiple \<open>n * 2^s\<close> of the
  unit in the last place \<open>2^s\<close>, where \<open>s\<close> is the binary exponent less the 52 fraction
  bits and is at least \<open>-1074\<close>; infinity once the rounded value reaches \<open>2^1024\<close>.
\<close>

definition to_double :: "int \<Rightarrow> int \<Rightarrow> pyfloat" where
  "to_double a b =
     (if a = 0 then Fin 0
      else let s = max (binexp a b) (- 1022) - 52;
               n = (if 0 \<le> s then round_div a (b * 2 ^ nat s)
                    else round_div (a * 2 ^ nat (- s)) b)
           in if 0 \<le> s
              then (if 2 ^ 1024 \<le> n * 2 ^ nat s then PInf else Fin (of_int (n * 2 ^ nat s)))
              else Fin (of_int n * pow2 s))"

text \<open>
  The numerals the patterns can hand over are digits with at most one dot. On any other
  text this model answers \<^verbatim>\<open>ValueError\<close>; Python accepts more (signs, exponents,
  surrounding blanks, underscores, \<^verbatim>\<open>inf\<close>, \<^verbatim>\<open>nan\<close>), none of which a payload of the
  latency or packet-loss pattern can be.
\<close>

definition split_decimal :: "string \<Rightarrow> (string \<times> string) option" where
  "split_decimal s =
     (let ip = takeWhile is_digit s
      in case dropWhile is_digit s of
           [] \<Rightarrow> if ip = [] then None else Some (ip, [])
         | c # fr \<Rightarrow>
             if c = CHR ''.'' \<and> list_all is_digit fr \<and> (ip \<noteq> [] \<or> fr \<noteq> [])
             then Some (ip, fr) else None)"

definition py_float :: "string \<Rightarrow> error + pyfloat" where
  "py_float s =
     (case split_decimal s of
        None \<Rightarrow> Inl (ValueError s)
      | Some (ip, fr) \<Rightarrow> Inr (to_double (int_of_digits (ip @ fr)) (10 ^ length fr)))"

text \<open>\<^verbatim>\<open>x > n\<close> for a float read from text and an integer constant.\<close>

definition gt :: "pyfloat \<Rightarrow> rat \<Rightarrow> bool" where
  "gt x n = (case x of Fin r \<Rightarrow> n < r | PInf \<Rightarrow> True)"

text \<open>
  The sort key \<^verbatim>\<open>-x\<close>: the negation of infinity is below every number, which is the
  order of \<^typ>\<open>rat option\<close> with \<open>None\<close> least.
\<close>

definition neg :: "pyfloat \<Rightarrow> rat option" where
  "neg x = (case x of Fin r \<Rightarrow> Some (- r) | PInf \<Rightarrow> None)"

subsection \<open>Formatting\<close>

fun str_nat :: "nat \<Rightarrow> string" where
  "str_nat n = (if n < 10 then [char_of (48 + n)] else str_nat (n div 10) @ [char_of (48 + n mod 10)])"

definition str_int :: "int \<Rightarrow> string" where
  "str_int i = (if i < 0 then CHR ''-'' # str_nat (nat (- i)) else str_nat (nat i))"

text \<open>\<^verbatim>\<open>{s:<w}\<close> and \<^verbatim>\<open>{s:>w}\<close>: pad with blanks to the width, never cut.\<close>

definition ljust :: "nat \<Rightarrow> string \<Rightarrow> string" where
  "ljust w s = s @ replicate (w - length s) CHR '' ''"

definition rjust :: "nat \<Rightarrow> string \<Rightarrow> string" where
  "rjust w s = replicate (w - length s) CHR '' '' @ s"

text \<open>
  \<^verbatim>\<open>{x:.1f}\<close>: one digit after the point, the exact value rounded half to even. The
  floats of the parser are never negative.
\<close>

definition round_half_even :: "rat \<Rightarrow> int" where
  "round_half_even x =
     (let f = \<lfloor>x\<rfloor>; d = x - of_int f
      in if d < 1 / 2 then f else if 1 / 2 < d then f + 1 else if even f then f else f + 1)"

definition fmt1 :: "pyfloat \<Rightarrow> string" where
  "fmt1 x =
     (case x of
        PInf \<Rightarrow> ''inf''
      | Fin r \<Rightarrow> (let n = round_half_even (r * 10)
                  in str_int (n div 10) @ ''.'' @ str_int (n mod 10)))"

text \<open>\<^verbatim>\<open>xs[:n]\<close>: a negative bound counts from the end.\<close>

definition upto_slice :: "int \<Rightarrow> 'a list \<Rightarrow> 'a list" where
  "upto_slice n xs = (if 0 \<le> n then take (nat n) xs else take (length xs - nat (- n)) xs)"

text \<open>\<^verbatim>\<open>"\n".join(sections)\<close>\<close>

fun join :: "string \<Rightarrow> string list \<Rightarrow> string" where
  "join sep [] = []"
| "join sep [x] = x"
| "join sep (x # xs) = x @ sep @ join sep xs"

subsection \<open>\<^verbatim>\<open>Counter\<close> and \<^verbatim>\<open>defaultdict(int)\<close>\<close>

text \<open>
  A dictionary keeps its keys in the order of their first insertion, which the ranking
  of equal counts depends on: an association list with distinct keys. \<^verbatim>\<open>c[k] += 1\<close>
  adds one to the count of a key, or enters the key at the end with count one.
\<close>

type_synonym counter = "(string \<times> int) list"

fun incr :: "string \<Rightarrow> counter \<Rightarrow> counter" where
  "incr k [] = [(k, 1)]"
| "incr k ((k', v) # kvs) = (if k = k' then (k', v + 1) # kvs else (k', v) # incr k kvs)"

text \<open>\<^verbatim>\<open>c[k]\<close> on a Counter: the count, zero for a missing key.\<close>

fun count_of :: "counter \<Rightarrow> string \<Rightarrow> int" where
  "count_of [] k = 0"
| "count_of ((k', v) # kvs) k = (if k = k' then v else count_of kvs k)"

text \<open>
  \<^verbatim>\<open>Counter.most_common(n)\<close>: the \<open>n\<close> largest counts, largest first, equal counts in
  the order of the dictionary (a stable sort); nothing for \<open>n \<le> 0\<close>.
\<close>

definition most_common :: "int \<Rightarrow> counter \<Rightarrow> (string \<times> int) list" where
  "most_common n c = (if n \<le> 0 then [] else take (nat n) (sort_key (\<lambda>kv. - snd kv) c))"

text \<open>
  \<^verbatim>\<open>sorted(d)\<close> on a dictionary: its keys in ascending order, strings compared
  character by character, a proper prefix first.
\<close>

definition sorted_keys :: "counter \<Rightarrow> string list" where
  "sorted_keys c = sort (map fst c)"

section \<open>The parser\<close>

subsection \<open>State\<close>

type_synonym entry = "int \<times> string"
type_synonym measured = "int \<times> pyfloat \<times> string"

record network_log_parser =
  filepath :: string
  lines :: "string list"
  total_lines :: int
  denied_entries :: "entry list"
  allowed_entries :: "entry list"
  connection_errors :: "entry list"
  dns_failures :: "entry list"
  dns_queries :: "entry list"
  high_latency :: "measured list"
  packet_loss_entries :: "measured list"
  dhcp_events :: "entry list"
  source_ips :: counter
  dest_ips :: counter
  denied_ips :: counter
  error_timeline :: counter
  ports_targeted :: counter

definition init :: "string \<Rightarrow> network_log_parser" where
  "init path = \<lparr> filepath = path, lines = [], total_lines = 0, denied_entries = [],
      allowed_entries = [], connection_errors = [], dns_failures = [], dns_queries = [],
      high_latency = [], packet_loss_entries = [], dhcp_events = [], source_ips = [],
      dest_ips = [], denied_ips = [], error_timeline = [], ports_targeted = [] \<rparr>"

subsection \<open>Loading\<close>

text \<open>
  The file system is a map from paths to the decoded text of regular files. Text mode
  turns \<^verbatim>\<open>\r\n\<close> and a lone \<^verbatim>\<open>\r\<close> into \<^verbatim>\<open>\n\<close>; \<^verbatim>\<open>readlines\<close> cuts after every
  \<^verbatim>\<open>\n\<close> and keeps it on the line.
\<close>

fun universal_newlines :: "string \<Rightarrow> string" where
  "universal_newlines [] = []"
| "universal_newlines [c] = (if c = CHR 0x0D then [CHR 0x0A] else [c])"
| "universal_newlines (c # d # cs) =
     (if c = CHR 0x0D
      then (if d = CHR 0x0A then CHR 0x0A # universal_newlines cs
            else CHR 0x0A # universal_newlines (d # cs))
      else c # universal_newlines (d # cs))"

fun split_lines :: "string \<Rightarrow> string \<Rightarrow> string list" where
  "split_lines acc [] = (if acc = [] then [] else [acc])"
| "split_lines acc (c # cs) =
     (if c = CHR 0x0A then (acc @ [c]) # split_lines [] cs else split_lines (acc @ [c]) cs)"

definition readlines :: "string \<Rightarrow> string list" where
  "readlines content = split_lines [] (universal_newlines content)"

definition load :: "(string \<rightharpoonup> string) \<Rightarrow> network_log_parser \<Rightarrow> error + network_log_parser" where
  "load fs st =
     (case fs (filepath st) of
        None \<Rightarrow> Inl (SystemExit 1)
      | Some content \<Rightarrow>
          (let ls = readlines content
           in Inr (st\<lparr> lines := ls, total_lines := int (length ls) \<rparr>)))"

subsection \<open>Classifying one line\<close>

definition extract_ips :: "string \<Rightarrow> network_log_parser \<Rightarrow> network_log_parser" where
  "extract_ips line st =
     fold (\<lambda>m st.
             let ips = findall (PATTERNS Ip_address) line;
                 st1 = (if 1 \<le> length ips
                        then st\<lparr> source_ips := incr (ips ! 0) (source_ips st) \<rparr> else st)
             in if 2 \<le> length ips
                then st1\<lparr> dest_ips := incr (ips ! 1) (dest_ips st1) \<rparr> else st1)
          (finditer (PATTERNS Ip_address) line) st"

definition extract_ports :: "string \<Rightarrow> network_log_parser \<Rightarrow> network_log_parser" where
  "extract_ports line st =
     fold (\<lambda>m st. st\<lparr> ports_targeted := incr (group m) (ports_targeted st) \<rparr>)
          (finditer (PATTERNS Port) line) st"

definition check_firewall :: "string \<Rightarrow> int \<Rightarrow> network_log_parser \<Rightarrow> network_log_parser" where
  "check_firewall line line_num st =
     (if found Firewall_deny line
      then fold (\<lambda>ip st. st\<lparr> denied_ips := incr ip (denied_ips st) \<rparr>)
                (findall (PATTERNS Ip_address) line)
                (st\<lparr> denied_entries := denied_entries st @ [(line_num, strip line)] \<rparr>)
      else if found Firewall_allow line
      then st\<lparr> allowed_entries := allowed_entries st @ [(line_num, strip line)] \<rparr>
      else st)"

definition check_dns :: "string \<Rightarrow> int \<Rightarrow> network_log_parser \<Rightarrow> network_log_parser" where
  "check_dns line line_num st =
     (if found Dns_failure line
      then st\<lparr> dns_failures := dns_failures st @ [(line_num, strip line)] \<rparr>
      else if found Dns_query line
      then st\<lparr> dns_queries := dns_queries st @ [(line_num, strip line)] \<rparr>
      else st)"

definition check_connection_errors ::
  "string \<Rightarrow> int \<Rightarrow> network_log_parser \<Rightarrow> network_log_parser" where
  "check_connection_errors line line_num st =
     (if found Connection_error line
      then st\<lparr> connection_errors := connection_errors st @ [(line_num, strip line)] \<rparr>
      else st)"

definition check_latency ::
  "string \<Rightarrow> int \<Rightarrow> network_log_parser \<Rightarrow> error + network_log_parser" where
  "check_latency line line_num st =
     (case search (PATTERNS Latency) line of
        None \<Rightarrow> Inr st
      | Some m \<Rightarrow>
          (case py_float (group m) of
             Inl e \<Rightarrow> Inl e
           | Inr ms \<Rightarrow>
               if gt ms 100
               then Inr (st\<lparr> high_latency := high_latency st @ [(line_num, ms, strip line)] \<rparr>)
               else Inr st))"

definition check_packet_loss ::
  "string \<Rightarrow> int \<Rightarrow> network_log_parser \<Rightarrow> error + network_log_parser" where
  "check_packet_loss line line_num st =
     (case search (PATTERNS Packet_loss) line of
        None \<Rightarrow> Inr st
      | Some m \<Rightarrow>
          (case py_float (group m) of
             Inl e \<Rightarrow> Inl e
           | Inr loss \<Rightarrow>
               if gt loss 0
               then Inr (st\<lparr> packet_loss_entries :=
                               packet_loss_entries st @ [(line_num, loss, strip line)] \<rparr>)
               else Inr st))"

definition check_dhcp :: "string \<Rightarrow> int \<Rightarrow> network_log_parser \<Rightarrow> network_log_parser" where
  "check_dhcp line line_num st =
     (if found Dhcp_event line
      then st\<lparr> dhcp_events := dhcp_events st @ [(line_num, strip line)] \<rparr>
      else st)"

text \<open>
  The loop over the two timestamp patterns, left at the first one that matches
  (\<^verbatim>\<open>break\<close>).
\<close>

fun timestamp_loop :: "pat list \<Rightarrow> string \<Rightarrow> network_log_parser \<Rightarrow> network_log_parser" where
  "timestamp_loop [] line st = st"
| "timestamp_loop (pat_name # rest) line st =
     (case search (PATTERNS pat_name) line of
        Some m \<Rightarrow>
          (let ts = group m;
               hour = (if pat_name = Timestamp_iso then take 13 ts else take 10 ts)
           in if found Firewall_deny line \<or> found Connection_error line
              then st\<lparr> error_timeline := incr hour (error_timeline st) \<rparr>
              else st)
      | None \<Rightarrow> timestamp_loop rest line st)"

definition extract_timestamp_bucket :: "string \<Rightarrow> network_log_parser \<Rightarrow> network_log_parser" where
  "extract_timestamp_bucket line st = timestamp_loop [Timestamp_iso, Timestamp_syslog] line st"

subsection \<open>The pass over the file\<close>

definition classify :: "int \<Rightarrow> string \<Rightarrow> network_log_parser \<Rightarrow> error + network_log_parser" where
  "classify line_num line st =
     (let st1 = extract_ips line st;
          st2 = extract_ports line st1;
          st3 = check_firewall line line_num st2;
          st4 = check_dns line line_num st3;
          st5 = check_connection_errors line line_num st4
      in case check_latency line line_num st5 of
           Inl e \<Rightarrow> Inl e
         | Inr st6 \<Rightarrow>
             (case check_packet_loss line line_num st6 of
                Inl e \<Rightarrow> Inl e
              | Inr st7 \<Rightarrow> Inr (extract_timestamp_bucket line (check_dhcp line line_num st7))))"

text \<open>\<^verbatim>\<open>for line_num, line in enumerate(self.lines, start=1)\<close>\<close>

fun parse_loop :: "int \<Rightarrow> string list \<Rightarrow> network_log_parser \<Rightarrow> error + network_log_parser" where
  "parse_loop line_num [] st = Inr st"
| "parse_loop line_num (line # rest) st =
     (case classify line_num line st of
        Inl e \<Rightarrow> Inl e
      | Inr st' \<Rightarrow> parse_loop (line_num + 1) rest st')"

definition parse :: "network_log_parser \<Rightarrow> error + network_log_parser" where
  "parse st = parse_loop 1 (lines st) st"

subsection \<open>The report\<close>

text \<open>
  The clock is outside the program: \<open>now\<close> is the text
  \<^verbatim>\<open>datetime.now().strftime('%Y-%m-%d %H:%M:%S')\<close> gives at the moment of the call. The
  sample headers hold the one character of the report beyond the range of the model, the
  dash U+2014, written here as its three UTF-8 bytes.
\<close>

definition nl :: char where
  "nl = CHR 0x0A"

definition em_dash :: string where
  "em_dash = [CHR 0xE2, CHR 0x80, CHR 0x94]"

definition border :: string where
  "border = replicate 72 CHR ''=''"

definition header :: "network_log_parser \<Rightarrow> string \<Rightarrow> string list" where
  "header st now =
     [border,
      ''  NETWORK LOG TROUBLESHOOTING REPORT'',
      ''  Source: '' @ filepath st,
      ''  Total lines parsed: '' @ str_int (total_lines st),
      ''  Generated: '' @ now,
      border]"

definition summary :: "network_log_parser \<Rightarrow> string list" where
  "summary st =
     [nl # ''[SUMMARY]'',
      ''  Firewall DENY/DROP entries : '' @ str_int (int (length (denied_entries st))),
      ''  Firewall ALLOW entries     : '' @ str_int (int (length (allowed_entries st))),
      ''  Connection errors          : '' @ str_int (int (length (connection_errors st))),
      ''  DNS failures               : '' @ str_int (int (length (dns_failures st))),
      ''  High-latency entries (>100ms): '' @ str_int (int (length (high_latency st))),
      ''  Packet-loss entries (>0%)  : '' @ str_int (int (length (packet_loss_entries st))),
      ''  DHCP events                : '' @ str_int (int (length (dhcp_events st)))]"

definition top_header :: "int \<Rightarrow> string \<Rightarrow> string" where
  "top_header top_n what = nl # ''[TOP '' @ str_int top_n @ '' '' @ what @ '']''"

definition sample_header :: "string \<Rightarrow> int \<Rightarrow> string" where
  "sample_header what top_n =
     nl # ''['' @ what @ '' '' @ em_dash @ '' showing first '' @ str_int top_n @ '']''"

definition ranked :: "string \<Rightarrow> nat \<Rightarrow> string \<Rightarrow> string \<times> int \<Rightarrow> string" where
  "ranked lead w unit kv = lead @ ljust w (fst kv) @ '' '' @ str_int (snd kv) @ '' '' @ unit"

definition top_section :: "string \<Rightarrow> string \<Rightarrow> nat \<Rightarrow> string \<Rightarrow> int \<Rightarrow> counter \<Rightarrow> string list" where
  "top_section what lead w unit top_n c =
     (if c \<noteq> [] then top_header top_n what # map (ranked lead w unit) (most_common top_n c)
      else [])"

definition timeline_header :: string where
  "timeline_header = nl # ''[ERROR TIMELINE (errors per time bucket)]''"

definition bucket_line :: "counter \<Rightarrow> string \<Rightarrow> string" where
  "bucket_line t bucket =
     (let bar = replicate (nat (min (count_of t bucket) 60)) CHR ''#''
      in ''  '' @ bucket @ ''  '' @ rjust 5 (str_int (count_of t bucket)) @ ''  '' @ bar)"

definition timeline_section :: "counter \<Rightarrow> string list" where
  "timeline_section t =
     (if t \<noteq> [] then timeline_header # map (bucket_line t) (sorted_keys t) else [])"

definition entry_line :: "entry \<Rightarrow> string" where
  "entry_line e = ''  Line '' @ str_int (fst e) @ '': '' @ take 120 (snd e)"

definition measured_line :: "string \<Rightarrow> measured \<Rightarrow> string" where
  "measured_line unit e =
     ''  Line '' @ str_int (fst e) @ '' ('' @ fmt1 (fst (snd e)) @ unit @ ''): ''
       @ take 120 (snd (snd e))"

definition entry_section :: "string \<Rightarrow> int \<Rightarrow> entry list \<Rightarrow> string list" where
  "entry_section what top_n es =
     (if es \<noteq> [] then sample_header what top_n # map entry_line (upto_slice top_n es) else [])"

definition measured_section :: "string \<Rightarrow> string \<Rightarrow> int \<Rightarrow> measured list \<Rightarrow> string list" where
  "measured_section what unit top_n es =
     (if es \<noteq> []
      then sample_header what top_n
             # map (measured_line unit) (upto_slice top_n (sort_key (\<lambda>x. neg (fst (snd x))) es))
      else [])"

definition footer :: "string list" where
  "footer = [nl # border, ''  END OF REPORT'', border @ [nl]]"

definition report_sections :: "network_log_parser \<Rightarrow> int \<Rightarrow> string \<Rightarrow> string list" where
  "report_sections st top_n now =
     header st now
     @ summary st
     @ top_section ''IPs IN DENY/DROP ENTRIES'' ''  '' 20 ''hits'' top_n (denied_ips st)
     @ top_section ''SOURCE IPs'' ''  '' 20 ''occurrences'' top_n (source_ips st)
     @ top_section ''DESTINATION IPs'' ''  '' 20 ''occurrences'' top_n (dest_ips st)
     @ top_section ''TARGETED PORTS'' ''  Port '' 10 ''occurrences'' top_n (ports_targeted st)
     @ timeline_section (error_timeline st)
     @ entry_section ''CONNECTION ERRORS'' top_n (connection_errors st)
     @ entry_section ''DNS FAILURES'' top_n (dns_failures st)
     @ measured_section ''HIGH LATENCY ENTRIES'' '' ms'' top_n (high_latency st)
     @ measured_section ''PACKET LOSS ENTRIES'' ''% loss'' top_n (packet_loss_entries st)
     @ entry_section ''DHCP EVENTS'' top_n (dhcp_events st)
     @ entry_section ''FIREWALL DENY/DROP SAMPLE'' top_n (denied_entries st)
     @ footer"

definition report :: "network_log_parser \<Rightarrow> int \<Rightarrow> string \<Rightarrow> string" where
  "report st top_n now = join [nl] (report_sections st top_n now)"

subsection \<open>The pipeline\<close>

text \<open>
  \<^verbatim>\<open>main\<close> after the command line is read: load, parse, render. Where the text goes
  (a file or the standard output) is outside the model.
\<close>

definition main :: "(string \<rightharpoonup> string) \<Rightarrow> string \<Rightarrow> int \<Rightarrow> string \<Rightarrow> error + string" where
  "main fs logfile top_n now =
     (case load fs (init logfile) of
        Inl e \<Rightarrow> Inl e
      | Inr st \<Rightarrow>
          (case parse st of
             Inl e \<Rightarrow> Inl e
           | Inr st' \<Rightarrow> Inr (report st' top_n now)))"

section \<open>What the claims speak of\<close>

text \<open>
  The language of an expression, as a relation between the cursor where a match starts
  and the cursor where it ends, free of the order in which the engine tries the ways.
\<close>

fun sem :: "rx \<Rightarrow> cursor \<Rightarrow> cursor \<Rightarrow> bool" where
  "sem Eps c c' = (c' = c)"
| "sem (Cls f) c c' = (\<exists>x xs. snd c = x # xs \<and> f x \<and> c' = (Some x, xs))"
| "sem (Seq a b) c c' = (\<exists>m. sem a c m \<and> sem b m c')"
| "sem (Alt a b) c c' = (sem a c c' \<or> sem b c c')"
| "sem (Rep f lo hi greedy) c c' =
     (\<exists>k. lo \<le> k \<and> k \<le> (case hi of None \<Rightarrow> k | Some h \<Rightarrow> h)
          \<and> k \<le> length (takeWhile f (snd c)) \<and> c' = adv k c)"
| "sem Bol c c' = (fst c = None \<and> c' = c)"
| "sem Wb c c' = (word_before c \<noteq> word_after c \<and> c' = c)"
| "sem (Grp a) c c' = sem a c c'"

text \<open>An expression without the named group leaves the group of a match state alone.\<close>

fun groupless :: "rx \<Rightarrow> bool" where
  "groupless (Seq a b) = (groupless a \<and> groupless b)"
| "groupless (Alt a b) = (groupless a \<and> groupless b)"
| "groupless (Grp a) = False"
| "groupless _ = True"

text \<open>The line numbers of all the match records of a state.\<close>

definition line_numbers :: "network_log_parser \<Rightarrow> int set" where
  "line_numbers st =
     fst ` set (denied_entries st) \<union> fst ` set (allowed_entries st)
     \<union> fst ` set (connection_errors st) \<union> fst ` set (dns_failures st)
     \<union> fst ` set (dns_queries st) \<union> fst ` set (high_latency st)
     \<union> fst ` set (packet_loss_entries st) \<union> fst ` set (dhcp_events st)"

text \<open>The month abbreviations the specification has in mind for a syslog timestamp.\<close>

definition month_abbreviations :: "string list" where
  "month_abbreviations = [''Jan'', ''Feb'', ''Mar'', ''Apr'', ''May'', ''Jun'', ''Jul'', ''Aug'',
                          ''Sep'', ''Oct'', ''Nov'', ''Dec'']"

text \<open>The cursor after the text \<open>u\<close> has been read from a cursor with \<open>p\<close> before it.\<close>

definition after :: "char option \<Rightarrow> string \<Rightarrow> string \<Rightarrow> cursor" where
  "after p u rest = (if u = [] then p else Some (last u), rest)"

text \<open>
  The numerals of the latency and packet-loss patterns, \<^verbatim>\<open>\d+\.?\d*\<close>: digits, at least
  one, then at most one dot, then digits.
\<close>

definition numeral_rx :: rx where
  "numeral_rx = seqs [plus is_digit, opt (lit CHR ''.''), star is_digit]"

definition is_decimal :: "string \<Rightarrow> bool" where
  "is_decimal t =
     (\<exists>u1 u2 u3. t = u1 @ u2 @ u3 \<and> u1 \<noteq> [] \<and> list_all is_digit u1
                 \<and> (u2 = [] \<or> u2 = ''.'') \<and> list_all is_digit u3)"

text \<open>The log line of the first scenario of the specification.\<close>

definition scenario_1 :: string where
  "scenario_1 = ''2024-05-01T10:15:00 DROP SRC=10.0.0.5 DST=10.0.0.9 SPT=443 DPT=8080''"

text \<open>
  An expression whose matches depend on nothing but the text they read: it matches at a
  cursor exactly the texts of a set, whatever comes before and after.
\<close>

definition texts :: "rx \<Rightarrow> (string \<Rightarrow> bool) \<Rightarrow> bool" where
  "texts r A =
     (\<forall>p s c'. sem r (p, s) c' \<longleftrightarrow> (\<exists>u rest. s = u @ rest \<and> A u \<and> c' = after p u rest))"

text \<open>A time of day: two digits, a colon, two digits, a colon, two digits.\<close>

definition is_hms :: "string \<Rightarrow> bool" where
  "is_hms t =
     (\<exists>h m s. t = h @ '':'' @ m @ '':'' @ s
              \<and> length h = 2 \<and> list_all is_digit h \<and> length m = 2 \<and> list_all is_digit m
              \<and> length s = 2 \<and> list_all is_digit s)"

text \<open>
  What the syslog pattern reads: three word characters, blanks, one or two digits,
  blanks, a time of day.
\<close>

definition is_syslog_stamp :: "string \<Rightarrow> bool" where
  "is_syslog_stamp u =
     (\<exists>w sp1 d sp2 t. u = w @ sp1 @ d @ sp2 @ t
        \<and> length w = 3 \<and> list_all is_word w
        \<and> sp1 \<noteq> [] \<and> list_all is_space sp1
        \<and> (length d = 1 \<or> length d = 2) \<and> list_all is_digit d
        \<and> sp2 \<noteq> [] \<and> list_all is_space sp2
        \<and> is_hms t)"


text \<open>
  The optional sections of the report, in the order of the report: for each, whether the
  collection under it is empty, and the lines it has when it is rendered, its header
  first.
\<close>

definition blocks :: "network_log_parser \<Rightarrow> int \<Rightarrow> (bool \<times> string list) list" where
  "blocks st top_n =
     [(denied_ips st = [],
         top_header top_n ''IPs IN DENY/DROP ENTRIES''
           # map (ranked ''  '' 20 ''hits'') (most_common top_n (denied_ips st))),
      (source_ips st = [],
         top_header top_n ''SOURCE IPs''
           # map (ranked ''  '' 20 ''occurrences'') (most_common top_n (source_ips st))),
      (dest_ips st = [],
         top_header top_n ''DESTINATION IPs''
           # map (ranked ''  '' 20 ''occurrences'') (most_common top_n (dest_ips st))),
      (ports_targeted st = [],
         top_header top_n ''TARGETED PORTS''
           # map (ranked ''  Port '' 10 ''occurrences'') (most_common top_n (ports_targeted st))),
      (error_timeline st = [],
         timeline_header # map (bucket_line (error_timeline st)) (sorted_keys (error_timeline st))),
      (connection_errors st = [],
         sample_header ''CONNECTION ERRORS'' top_n
           # map entry_line (upto_slice top_n (connection_errors st))),
      (dns_failures st = [],
         sample_header ''DNS FAILURES'' top_n
           # map entry_line (upto_slice top_n (dns_failures st))),
      (high_latency st = [],
         sample_header ''HIGH LATENCY ENTRIES'' top_n
           # map (measured_line '' ms'')
               (upto_slice top_n (sort_key (\<lambda>x. neg (fst (snd x))) (high_latency st)))),
      (packet_loss_entries st = [],
         sample_header ''PACKET LOSS ENTRIES'' top_n
           # map (measured_line ''% loss'')
               (upto_slice top_n (sort_key (\<lambda>x. neg (fst (snd x))) (packet_loss_entries st)))),
      (dhcp_events st = [],
         sample_header ''DHCP EVENTS'' top_n
           # map entry_line (upto_slice top_n (dhcp_events st))),
      (denied_entries st = [],
         sample_header ''FIREWALL DENY/DROP SAMPLE'' top_n
           # map entry_line (upto_slice top_n (denied_entries st)))]"

section \<open>Counters\<close>

lemma count_of_incr: "count_of (incr k c) k' = count_of c k' + (if k' = k then 1 else 0)"
  by (induction c) auto

lemma count_of_fold_incr: "count_of (fold incr ks c) k = count_of c k + int (count_list ks k)"
  by (induction ks arbitrary: c) (auto simp: count_of_incr)

lemma incr_not_empty: "incr k c \<noteq> []"
  by (cases c) (auto split: if_splits)

section \<open>Firewall verdicts\<close>

lemma fold_denied_ips:
  "fold (\<lambda>ip st. st\<lparr> denied_ips := incr ip (denied_ips st) \<rparr>) ips st
     = st\<lparr> denied_ips := fold incr ips (denied_ips st) \<rparr>"
  by (induction ips arbitrary: st) auto

text \<open>
  Claim C2. A line on which both a deny keyword and an allow keyword match is recorded as
  a deny entry and not as an allow entry, and the denied-IP table gains one count for
  every occurrence of an IPv4 literal on the line.
\<close>

theorem deny_precedence:
  "found Firewall_deny line \<Longrightarrow> found Firewall_allow line \<Longrightarrow>
     denied_entries (check_firewall line n st) = denied_entries st @ [(n, strip line)]
     \<and> allowed_entries (check_firewall line n st) = allowed_entries st
     \<and> count_of (denied_ips (check_firewall line n st)) ip
         = count_of (denied_ips st) ip + int (count_list (findall (PATTERNS Ip_address) line) ip)"
  by (simp add: check_firewall_def fold_denied_ips count_of_fold_incr)

theorem deny_precedence_witness:
  "found Firewall_deny ''DROP ACCEPT 1.2.3.4 1.2.3.4''
   \<and> found Firewall_allow ''DROP ACCEPT 1.2.3.4 1.2.3.4''
   \<and> denied_entries (check_firewall ''DROP ACCEPT 1.2.3.4 1.2.3.4'' 7 (init ''log''))
        = [(7, ''DROP ACCEPT 1.2.3.4 1.2.3.4'')]
   \<and> allowed_entries (check_firewall ''DROP ACCEPT 1.2.3.4 1.2.3.4'' 7 (init ''log'')) = []
   \<and> count_of (denied_ips (check_firewall ''DROP ACCEPT 1.2.3.4 1.2.3.4'' 7 (init ''log'')))
        ''1.2.3.4'' = 2"
proof -
  have d: "found Firewall_deny ''DROP ACCEPT 1.2.3.4 1.2.3.4''" by code_simp
  have a: "found Firewall_allow ''DROP ACCEPT 1.2.3.4 1.2.3.4''" by code_simp
  have s: "strip ''DROP ACCEPT 1.2.3.4 1.2.3.4'' = ''DROP ACCEPT 1.2.3.4 1.2.3.4''"
    by code_simp
  have f: "findall (PATTERNS Ip_address) ''DROP ACCEPT 1.2.3.4 1.2.3.4''
             = [''1.2.3.4'', ''1.2.3.4'']"
    by code_simp
  show ?thesis
    using deny_precedence [OF d a, of 7 "init ''log''" "''1.2.3.4''"] d a
    by (simp add: s f init_def del: PATTERNS.simps)
qed

section \<open>The error timeline\<close>

text \<open>
  Claim C3. The ISO pattern is tried first and the syslog pattern only when it fails; the
  bucket of the first timestamp found gains exactly one when the line matches the deny
  pattern or the connection-error pattern (one, also when it matches both) and nothing
  when it matches neither; a line without a timestamp leaves the timeline as it is.
\<close>

theorem timeline_bucket_once:
  "error_timeline (extract_timestamp_bucket line st) =
     (case search (PATTERNS Timestamp_iso) line of
        Some m \<Rightarrow>
          if found Firewall_deny line \<or> found Connection_error line
          then incr (take 13 (group m)) (error_timeline st) else error_timeline st
      | None \<Rightarrow>
          (case search (PATTERNS Timestamp_syslog) line of
             Some m \<Rightarrow>
               if found Firewall_deny line \<or> found Connection_error line
               then incr (take 10 (group m)) (error_timeline st) else error_timeline st
           | None \<Rightarrow> error_timeline st))
   \<and> count_of (error_timeline (extract_timestamp_bucket line st)) b =
       count_of (error_timeline st) b +
       (case search (PATTERNS Timestamp_iso) line of
          Some m \<Rightarrow>
            if b = take 13 (group m) \<and> (found Firewall_deny line \<or> found Connection_error line)
            then 1 else 0
        | None \<Rightarrow>
            (case search (PATTERNS Timestamp_syslog) line of
               Some m \<Rightarrow>
                 if b = take 10 (group m)
                    \<and> (found Firewall_deny line \<or> found Connection_error line)
                 then 1 else 0
             | None \<Rightarrow> 0))"
  by (simp add: extract_timestamp_bucket_def count_of_incr Let_def split: option.splits
           del: PATTERNS.simps)

theorem timeline_bucket_once_witness:
  "error_timeline (extract_timestamp_bucket ''2024-05-01T10:15:00 DROP connection refused''
                     (init ''log''))
     = [(''2024-05-01T10'', 1)]
   \<and> error_timeline (extract_timestamp_bucket ''May  1 10:15:00 link down'' (init ''log''))
     = [(''May  1 10:'', 1)]
   \<and> error_timeline (extract_timestamp_bucket ''May  1 10:15:00 all fine'' (init ''log'')) = []
   \<and> error_timeline (extract_timestamp_bucket ''DROP at no time'' (init ''log'')) = []"
proof -
  have a1: "search (PATTERNS Timestamp_iso) ''2024-05-01T10:15:00 DROP connection refused''
              = Some \<lparr> whole = ''2024-05-01T10:15:00'', named = Some ''2024-05-01T10:15:00'',
                       stop = (Some CHR ''0'', '' DROP connection refused'') \<rparr>"
    by code_simp
  have a2: "found Firewall_deny ''2024-05-01T10:15:00 DROP connection refused''" by code_simp
  have b1: "search (PATTERNS Timestamp_iso) ''May  1 10:15:00 link down'' = None" by code_simp
  have b2: "search (PATTERNS Timestamp_syslog) ''May  1 10:15:00 link down''
              = Some \<lparr> whole = ''May  1 10:15:00'', named = Some ''May  1 10:15:00'',
                       stop = (Some CHR ''0'', '' link down'') \<rparr>"
    by code_simp
  have b3: "found Connection_error ''May  1 10:15:00 link down''" by code_simp
  have c1: "search (PATTERNS Timestamp_iso) ''May  1 10:15:00 all fine'' = None" by code_simp
  have c2: "search (PATTERNS Timestamp_syslog) ''May  1 10:15:00 all fine''
              = Some \<lparr> whole = ''May  1 10:15:00'', named = Some ''May  1 10:15:00'',
                       stop = (Some CHR ''0'', '' all fine'') \<rparr>"
    by code_simp
  have c3: "\<not> found Firewall_deny ''May  1 10:15:00 all fine''" by code_simp
  have c4: "\<not> found Connection_error ''May  1 10:15:00 all fine''" by code_simp
  have d1: "search (PATTERNS Timestamp_iso) ''DROP at no time'' = None" by code_simp
  have d2: "search (PATTERNS Timestamp_syslog) ''DROP at no time'' = None" by code_simp
  have t1: "error_timeline (extract_timestamp_bucket
               ''2024-05-01T10:15:00 DROP connection refused'' (init ''log''))
             = [(''2024-05-01T10'', 1)]"
    using timeline_bucket_once [of "''2024-05-01T10:15:00 DROP connection refused''"
        "init ''log''" "''2024-05-01T10''"]
    by (simp add: a1 a2 group_def init_def del: PATTERNS.simps)
  have t2: "error_timeline (extract_timestamp_bucket ''May  1 10:15:00 link down'' (init ''log''))
             = [(''May  1 10:'', 1)]"
    using timeline_bucket_once [of "''May  1 10:15:00 link down''" "init ''log''" "''May  1 10:''"]
    by (simp add: b1 b2 b3 group_def init_def del: PATTERNS.simps)
  have t3: "error_timeline (extract_timestamp_bucket ''May  1 10:15:00 all fine'' (init ''log''))
             = []"
    using timeline_bucket_once [of "''May  1 10:15:00 all fine''" "init ''log''" "''May  1 10''"]
    by (simp add: c1 c2 c3 c4 group_def init_def del: PATTERNS.simps)
  have t4: "error_timeline (extract_timestamp_bucket ''DROP at no time'' (init ''log'')) = []"
    using timeline_bucket_once [of "''DROP at no time''" "init ''log''" "''x''"]
    by (simp add: d1 d2 init_def del: PATTERNS.simps)
  show ?thesis using t1 t2 t3 t4 by simp
qed

section \<open>Latency\<close>

text \<open>
  Claim C5. A line on which the latency pattern matches is recorded as a high-latency
  entry, with the parsed value, exactly when that value is strictly above 100; the value
  100.0 itself is not recorded.
\<close>

theorem high_latency_threshold:
  "search (PATTERNS Latency) line = Some m \<Longrightarrow> py_float (group m) = Inr v \<Longrightarrow>
     check_latency line n st =
       Inr (if gt v 100 then st\<lparr> high_latency := high_latency st @ [(n, v, strip line)] \<rparr>
            else st)
     \<and> (gt v 100 \<longleftrightarrow> v = PInf \<or> (\<exists>r. v = Fin r \<and> 100 < r))"
  by (cases v) (simp_all add: check_latency_def gt_def del: PATTERNS.simps)


theorem high_latency_threshold_witness:
  "map_option group (search (PATTERNS Latency) ''rtt=250.5 ms to host'') = Some ''250.5''
   \<and> py_float ''250.5'' = Inr (Fin (501 / 2))
   \<and> check_latency ''rtt=250.5 ms to host'' 1 (init ''log'')
        = Inr ((init ''log'')\<lparr> high_latency := [(1, Fin (501 / 2), ''rtt=250.5 ms to host'')] \<rparr>)
   \<and> map_option group (search (PATTERNS Latency) ''rtt=80 ms to host'') = Some ''80''
   \<and> py_float ''80'' = Inr (Fin 80)
   \<and> check_latency ''rtt=80 ms to host'' 2 (init ''log'') = Inr (init ''log'')
   \<and> map_option group (search (PATTERNS Latency) ''rtt=100.0 ms'') = Some ''100.0''
   \<and> py_float ''100.0'' = Inr (Fin 100)
   \<and> check_latency ''rtt=100.0 ms'' 3 (init ''log'') = Inr (init ''log'')"
proof -
  have m1: "search (PATTERNS Latency) ''rtt=250.5 ms to host''
              = Some \<lparr> whole = ''rtt=250.5 ms'', named = Some ''250.5'',
                       stop = (Some CHR ''s'', '' to host'') \<rparr>"
    by code_simp
  have m2: "search (PATTERNS Latency) ''rtt=80 ms to host''
              = Some \<lparr> whole = ''rtt=80 ms'', named = Some ''80'',
                       stop = (Some CHR ''s'', '' to host'') \<rparr>"
    by code_simp
  have m3: "search (PATTERNS Latency) ''rtt=100.0 ms''
              = Some \<lparr> whole = ''rtt=100.0 ms'', named = Some ''100.0'',
                       stop = (Some CHR ''s'', []) \<rparr>"
    by code_simp
  have f1: "py_float ''250.5'' = Inr (Fin (501 / 2))" by code_simp
  have f2: "py_float ''80'' = Inr (Fin 80)" by code_simp
  have f3: "py_float ''100.0'' = Inr (Fin 100)" by code_simp
  have s1: "strip ''rtt=250.5 ms to host'' = ''rtt=250.5 ms to host''" by code_simp
  have t1: "check_latency ''rtt=250.5 ms to host'' 1 (init ''log'')
        = Inr ((init ''log'')\<lparr> high_latency := [(1, Fin (501 / 2), ''rtt=250.5 ms to host'')] \<rparr>)"
    using high_latency_threshold [OF m1, of "Fin (501 / 2)" 1 "init ''log''"]
    by (simp add: group_def f1 s1 gt_def init_def)
  have t2: "check_latency ''rtt=80 ms to host'' 2 (init ''log'') = Inr (init ''log'')"
    using high_latency_threshold [OF m2, of "Fin 80" 2 "init ''log''"]
    by (simp add: group_def f2 gt_def)
  have t3: "check_latency ''rtt=100.0 ms'' 3 (init ''log'') = Inr (init ''log'')"
    using high_latency_threshold [OF m3, of "Fin 100" 3 "init ''log''"]
    by (simp add: group_def f3 gt_def)
  show ?thesis
    by (simp add: m1 m2 m3 f1 f2 f3 t1 t2 t3 group_def del: PATTERNS.simps)
qed

section \<open>The matcher finds what the language holds\<close>

lemma adv_append: "adv (length u) (p, u @ rest) = after p u rest"
  by (induction u arbitrary: p) (auto simp: after_def)

lemma snd_adv: "snd (adv k c) = drop k (snd c)"
  by (induction k c rule: adv.induct) auto

lemma set_counts:
  "set (counts lo hi greedy n)
     = {k. lo \<le> k \<and> k \<le> n \<and> k \<le> (case hi of None \<Rightarrow> k | Some h \<Rightarrow> h)}"
  by (auto simp: counts_def Let_def split: option.splits)

lemma backtrack_sem: "fst ` set (backtrack r c g) = {c'. sem r c c'}"
proof (induction r arbitrary: c g)
  case (Cls f)
  show ?case by (cases "snd c") auto
next
  case (Seq a b)
  have "fst ` set (backtrack (Seq a b) c g)
          = (\<Union>m \<in> set (backtrack a c g). fst ` set (backtrack b (fst m) (snd m)))"
    by (auto simp: case_prod_beta image_iff)
  also have "\<dots> = (\<Union>m \<in> set (backtrack a c g). {c'. sem b (fst m) c'})"
    using Seq.IH(2) by simp
  also have "\<dots> = (\<Union>c1 \<in> fst ` set (backtrack a c g). {c'. sem b c1 c'})"
    by auto
  also have "\<dots> = {c'. sem (Seq a b) c c'}"
    unfolding Seq.IH(1) by auto
  finally show ?case .
next
  case (Alt a b)
  show ?case by (simp add: image_Un Alt.IH Collect_disj_eq)
next
  case (Rep f lo hi greedy)
  show ?case by (auto simp: set_counts image_iff)
next
  case (Grp a)
  have "fst ` set (backtrack (Grp a) c g) = fst ` set (backtrack a c None)"
    by (simp add: case_prod_beta image_image)
  then show ?case using Grp.IH by simp
qed auto

lemma match_at_iff: "match_at r c \<noteq> None \<longleftrightarrow> (\<exists>c'. sem r c c')"
proof -
  have "match_at r c \<noteq> None \<longleftrightarrow> fst ` set (backtrack r c None) \<noteq> {}"
    by (cases "backtrack r c None") (auto simp: match_at_def)
  then show ?thesis unfolding backtrack_sem by auto
qed

lemma search_from_iff:
  "search_from r p s \<noteq> None
     \<longleftrightarrow> (\<exists>pre post c'. s = pre @ post \<and> sem r (after p pre post) c')"
proof (induction s arbitrary: p)
  case Nil
  show ?case using match_at_iff [of r "(p, [])"] by (simp add: after_def)
next
  case (Cons x xs)
  have "search_from r p (x # xs) \<noteq> None
          \<longleftrightarrow> match_at r (p, x # xs) \<noteq> None \<or> search_from r (Some x) xs \<noteq> None"
    by (auto split: option.splits)
  also have "\<dots> \<longleftrightarrow> (\<exists>c'. sem r (p, x # xs) c')
                 \<or> (\<exists>pre post c'. xs = pre @ post \<and> sem r (after (Some x) pre post) c')"
    using Cons.IH match_at_iff by simp
  also have "\<dots> \<longleftrightarrow> (\<exists>pre post c'. x # xs = pre @ post \<and> sem r (after p pre post) c')"
    (is "?L \<longleftrightarrow> ?R")
  proof
    assume ?L
    then show ?R
    proof
      assume "\<exists>c'. sem r (p, x # xs) c'"
      then obtain c' where "sem r (after p [] (x # xs)) c'" by (auto simp: after_def)
      then show ?R by (metis append_Nil)
    next
      assume "\<exists>pre post c'. xs = pre @ post \<and> sem r (after (Some x) pre post) c'"
      then obtain pre post c' where h: "xs = pre @ post" "sem r (after (Some x) pre post) c'"
        by blast
      have "after (Some x) pre post = after p (x # pre) post" by (simp add: after_def)
      with h have "x # xs = (x # pre) @ post \<and> sem r (after p (x # pre) post) c'" by simp
      then show ?R by blast
    qed
  next
    assume ?R
    then obtain pre post c' where h: "x # xs = pre @ post" "sem r (after p pre post) c'"
      by blast
    show ?L
    proof (cases pre)
      case Nil
      with h have "sem r (p, x # xs) c'" by (simp add: after_def)
      then show ?thesis by blast
    next
      case (Cons y ys)
      with h have "xs = ys @ post" "y = x" by auto
      moreover have "after p pre post = after (Some x) ys post"
        using Cons \<open>y = x\<close> by (simp add: after_def)
      ultimately show ?thesis using h by metis
    qed
  qed
  finally show ?case .
qed

lemma found_iff:
  "found n line
     \<longleftrightarrow> (\<exists>pre post c'. line = pre @ post \<and> sem (PATTERNS n) (after None pre post) c')"
  unfolding found_def search_def by (rule search_from_iff)

subsection \<open>The language of the building blocks\<close>

lemma sem_seqs_Cons: "sem (seqs (r # rs)) c c' \<longleftrightarrow> (\<exists>m. sem r c m \<and> sem (seqs rs) m c')"
  by (cases rs; cases c') auto

lemma sem_alts: "rs \<noteq> [] \<Longrightarrow> sem (alts rs) c c' \<longleftrightarrow> (\<exists>r \<in> set rs. sem r c c')"
  by (induction rs rule: alts.induct) auto

lemma after_after: "after (fst (after p u (v @ w))) v w = after p (u @ v) w"
  by (simp add: after_def)

lemma sem_Cls: "sem (Cls f) (p, s) c' \<longleftrightarrow> (\<exists>x rest. s = x # rest \<and> f x \<and> c' = after p [x] rest)"
  by (auto simp: after_def)

lemma sem_Rep:
  "sem (Rep f lo hi greedy) (p, s) c'
     \<longleftrightarrow> (\<exists>u rest. s = u @ rest \<and> list_all f u \<and> lo \<le> length u
                    \<and> length u \<le> (case hi of None \<Rightarrow> length u | Some h \<Rightarrow> h)
                    \<and> c' = after p u rest)"
  (is "?L \<longleftrightarrow> ?R")
proof
  assume ?L
  then obtain k where k: "lo \<le> k" "k \<le> (case hi of None \<Rightarrow> k | Some h \<Rightarrow> h)"
      "k \<le> length (takeWhile f s)" "c' = adv k (p, s)"
    by auto
  define u where "u = take k s"
  define rest where "rest = drop k s"
  have len: "length (takeWhile f s) \<le> length s" by (rule length_takeWhile_le)
  have s: "s = u @ rest" by (simp add: u_def rest_def)
  have lu: "length u = k" using k(3) len by (simp add: u_def)
  have "u = take k (takeWhile f s)"
    using k(3) unfolding u_def
    by (metis takeWhile_dropWhile_id take_append diff_is_0_eq take_0 append_Nil2)
  then have "set u \<subseteq> set (takeWhile f s)" by (metis set_take_subset)
  then have "list_all f u" by (auto simp: list_all_iff dest: set_takeWhileD)
  moreover have "c' = after p u rest" using k(4) adv_append [of u p rest] s lu by simp
  ultimately show ?R using s lu k(1,2) by (auto split: option.splits)
next
  assume ?R
  then obtain u rest where h: "s = u @ rest" "list_all f u" "lo \<le> length u"
      "length u \<le> (case hi of None \<Rightarrow> length u | Some h \<Rightarrow> h)" "c' = after p u rest"
    by blast
  have "takeWhile f s = u @ takeWhile f rest"
    using h(1,2) by (simp add: takeWhile_append2 list_all_iff)
  then have "length u \<le> length (takeWhile f s)" by simp
  moreover have "c' = adv (length u) (p, s)" using h(1,5) by (simp add: adv_append)
  ultimately show ?L using h(3,4) by (auto split: option.splits)
qed

lemma sem_chars:
  "sem (seqs (map (\<lambda>a. Cls (f a)) w)) (p, s) c'
     \<longleftrightarrow> (\<exists>u rest. s = u @ rest \<and> list_all2 f w u \<and> c' = after p u rest)"
proof (induction w arbitrary: p s)
  case Nil
  show ?case by (auto simp: after_def)
next
  case (Cons a w)
  show ?case (is "?L \<longleftrightarrow> ?R")
  proof
    assume ?L
    then obtain m where m: "sem (Cls (f a)) (p, s) m" "sem (seqs (map (\<lambda>a. Cls (f a)) w)) m c'"
      unfolding list.map sem_seqs_Cons by blast
    from m(1) obtain x rest where x: "s = x # rest" "f a x" "m = (Some x, rest)" by auto
    from m(2) [unfolded x(3) Cons.IH] obtain u rest' where
      u: "rest = u @ rest'" "list_all2 f w u" "c' = after (Some x) u rest'" by blast
    have "s = (x # u) @ rest'" using x(1) u(1) by simp
    moreover have "list_all2 f (a # w) (x # u)" using x(2) u(2) by simp
    moreover have "c' = after p (x # u) rest'" using u(3) by (simp add: after_def)
    ultimately show ?R by blast
  next
    assume ?R
    then obtain u rest where h: "s = u @ rest" "list_all2 f (a # w) u" "c' = after p u rest"
      by blast
    from h(2) obtain x u' where u: "u = x # u'" "f a x" "list_all2 f w u'"
      by (auto simp: list_all2_Cons1)
    have "sem (Cls (f a)) (p, s) (Some x, u' @ rest)" using h(1) u(1,2) by simp
    moreover have "sem (seqs (map (\<lambda>a. Cls (f a)) w)) (Some x, u' @ rest) c'"
      unfolding Cons.IH using u(3) h(3) u(1) by (auto simp: after_def)
    ultimately show ?L unfolding list.map sem_seqs_Cons by blast
  qed
qed

lemma sem_istr:
  "sem (istr w) (p, s) c'
     \<longleftrightarrow> (\<exists>u rest. s = u @ rest \<and> map to_lower u = map to_lower w \<and> c' = after p u rest)"
proof -
  have "list_all2 ilit w u \<longleftrightarrow> map to_lower u = map to_lower w" for u
    by (induction w arbitrary: u) (auto simp: list_all2_Cons1 ilit_def)
  then show ?thesis unfolding istr_def sem_chars by simp
qed

lemma to_lower_idem: "to_lower (to_lower c) = to_lower c"
  by (cases c) (auto simp: to_lower_def is_upper_def)

lemma found_keyword:
  assumes "PATTERNS n = alts rs" "istr w \<in> set rs" "map to_lower w = low"
    and "map to_lower line = pre @ low @ post"
  shows "found n line"
proof -
  from assms(4) obtain l1 l23 where l1: "line = l1 @ l23" "pre = map to_lower l1"
      "low @ post = map to_lower l23"
    unfolding map_eq_append_conv by blast
  from l1(3) [symmetric] obtain l2 l3 where l2': "l23 = l2 @ l3" "low = map to_lower l2"
    unfolding map_eq_append_conv by blast
  then have l2: "l23 = l2 @ l3" "map to_lower l2 = low" by simp_all
  have "sem (istr w) (after None l1 (l2 @ l3)) (after (fst (after None l1 (l2 @ l3))) l2 l3)"
    using l2(2) assms(3) sem_istr [of w "fst (after None l1 (l2 @ l3))" "l2 @ l3"]
    by (auto simp: after_def)
  moreover have "rs \<noteq> []" using assms(2) by auto
  ultimately have "sem (PATTERNS n) (after None l1 (l2 @ l3))
                     (after (fst (after None l1 (l2 @ l3))) l2 l3)"
    using assms(1,2) sem_alts by metis
  then show ?thesis unfolding found_iff using l1(1) l2(1) by blast
qed

section \<open>The keyword shared by two patterns\<close>

lemma lower_REFUSED: "map to_lower ''REFUSED'' = ''refused''"
  by (simp add: to_lower_def is_upper_def)

text \<open>
  Claim C10. The keyword REFUSED belongs to the deny pattern and to the DNS-failure
  pattern: a line that holds it, in any mix of capital and small letters, is recorded as a
  firewall-deny entry, every IPv4 literal on it counted in the denied-IP table, and as a
  DNS failure, whatever else the line is about.
\<close>

theorem refused_is_deny_and_dns_failure:
  "map to_lower line = pre @ ''refused'' @ post \<Longrightarrow>
     found Firewall_deny line \<and> found Dns_failure line
     \<and> denied_entries (check_firewall line n st) = denied_entries st @ [(n, strip line)]
     \<and> count_of (denied_ips (check_firewall line n st)) ip
         = count_of (denied_ips st) ip + int (count_list (findall (PATTERNS Ip_address) line) ip)
     \<and> dns_failures (check_dns line n st') = dns_failures st' @ [(n, strip line)]"
proof -
  assume h: "map to_lower line = pre @ ''refused'' @ post"
  have d: "found Firewall_deny line"
    by (rule found_keyword [OF _ _ lower_REFUSED h, where rs = "map istr [''DROP'', ''DENY'', ''BLOCK'', ''REJECT'', ''REFUSED'']"]) simp_all
  have f: "found Dns_failure line"
    by (rule found_keyword [OF PATTERNS.simps(9) _ lower_REFUSED h]) simp
  show ?thesis
    using d f by (simp add: check_firewall_def check_dns_def fold_denied_ips count_of_fold_incr
                       del: PATTERNS.simps)
qed

theorem refused_is_deny_and_dns_failure_witness:
  "map to_lower ''ssh Refused 1.2.3.4'' = ''ssh '' @ ''refused'' @ '' 1.2.3.4''
   \<and> found Firewall_deny ''ssh Refused 1.2.3.4'' \<and> found Dns_failure ''ssh Refused 1.2.3.4''
   \<and> denied_entries (check_firewall ''ssh Refused 1.2.3.4'' 3 (init ''log''))
        = [(3, ''ssh Refused 1.2.3.4'')]
   \<and> count_of (denied_ips (check_firewall ''ssh Refused 1.2.3.4'' 3 (init ''log''))) ''1.2.3.4'' = 1
   \<and> dns_failures (check_dns ''ssh Refused 1.2.3.4'' 3 (init ''log''))
        = [(3, ''ssh Refused 1.2.3.4'')]"
proof -
  have h: "map to_lower ''ssh Refused 1.2.3.4'' = ''ssh '' @ ''refused'' @ '' 1.2.3.4''"
    by (simp add: to_lower_def is_upper_def)
  have s: "strip ''ssh Refused 1.2.3.4'' = ''ssh Refused 1.2.3.4''" by code_simp
  have f: "findall (PATTERNS Ip_address) ''ssh Refused 1.2.3.4'' = [''1.2.3.4'']" by code_simp
  show ?thesis
    using refused_is_deny_and_dns_failure [OF h, of 3 "init ''log''" "''1.2.3.4''" "init ''log''"] h
    by (simp add: s f init_def del: PATTERNS.simps)
qed

subsection \<open>The named group of a match\<close>

lemma groupless_keeps:
  "groupless r \<Longrightarrow> st \<in> set (backtrack r c g) \<Longrightarrow> snd st = g"
proof (induction r arbitrary: c g st)
  case (Cls f)
  then show ?case by (cases "snd c") (auto split: if_splits)
next
  case (Seq a b)
  from Seq.prems(2) obtain st1 where st1: "st1 \<in> set (backtrack a c g)"
      "st \<in> set (backtrack b (fst st1) (snd st1))"
    by (auto simp: case_prod_beta)
  have "snd st1 = g" using Seq.IH(1) Seq.prems(1) st1(1) by simp
  then show ?case using Seq.IH(2) Seq.prems(1) st1(2) by simp
next
  case (Alt a b)
  from Alt.prems(2) have "st \<in> set (backtrack a c g) \<or> st \<in> set (backtrack b c g)" by simp
  then show ?case using Alt.IH(1) [of st c g] Alt.IH(2) [of st c g] Alt.prems(1) by auto
qed (auto split: if_splits)

lemma group_Seq_left:
  "groupless a \<Longrightarrow> st \<in> set (backtrack (Seq a b) c g) \<Longrightarrow> \<exists>c1. st \<in> set (backtrack b c1 g)"
  using groupless_keeps by (fastforce simp: case_prod_beta)

lemma group_Seq_right:
  "groupless b \<Longrightarrow> st \<in> set (backtrack (Seq a b) c g)
     \<Longrightarrow> \<exists>st1. st1 \<in> set (backtrack a c g) \<and> snd st = snd st1"
  using groupless_keeps by (fastforce simp: case_prod_beta)

lemma group_Grp:
  assumes "st \<in> set (backtrack (Grp a) c g)"
  shows "\<exists>c'. sem a c c' \<and> snd st = Some (take (length (snd c) - length (snd c')) (snd c))"
proof -
  from assms obtain st1 where st1: "st1 \<in> set (backtrack a c None)"
      "snd st = Some (take (length (snd c) - length (snd (fst st1))) (snd c))"
    by (auto simp: case_prod_beta)
  have "fst st1 \<in> fst ` set (backtrack a c None)" using st1(1) by simp
  then have "sem a c (fst st1)" unfolding backtrack_sem by simp
  then show ?thesis using st1(2) by blast
qed

lemma match_at_named:
  assumes "match_at r c = Some m"
  shows "\<exists>st. st \<in> set (backtrack r c None) \<and> named m = snd st"
proof (cases "backtrack r c None")
  case Nil
  then show ?thesis using assms by (simp add: match_at_def)
next
  case (Cons st rest)
  then have "m = mk_match c st" using assms by (simp add: match_at_def)
  then show ?thesis by (intro exI [of _ st]) (simp add: Cons mk_match_def)
qed

lemma search_from_named:
  "search_from r p s = Some m \<Longrightarrow> \<exists>c st. st \<in> set (backtrack r c None) \<and> named m = snd st"
proof (induction s arbitrary: p)
  case Nil
  then show ?case using match_at_named by fastforce
next
  case (Cons x xs)
  then show ?case using match_at_named by (fastforce split: option.splits)
qed

lemma groupless_chars: "groupless (seqs (map (\<lambda>a. Cls (f a)) w))"
  by (induction w rule: induct_list012) auto

lemma groupless_istr: "groupless (istr w)"
  by (simp add: istr_def groupless_chars)

lemma groupless_alts: "(\<forall>r \<in> set rs. groupless r) \<Longrightarrow> groupless (alts rs)"
  by (induction rs rule: alts.induct) auto

lemma sem_numeral:
  assumes "sem numeral_rx c c'"
  shows "is_decimal (take (length (snd c) - length (snd c')) (snd c))"
proof -
  obtain p s where c: "c = (p, s)" by (cases c)
  have "sem (Seq (Rep is_digit 1 None True)
              (Seq (Rep (lit CHR ''.'') 0 (Some 1) True) (Rep is_digit 0 None True))) (p, s) c'"
    using assms by (simp add: numeral_rx_def plus_def opt_def star_def c)
  then obtain m1 m2 where m: "sem (Rep is_digit 1 None True) (p, s) m1"
      "sem (Rep (lit CHR ''.'') 0 (Some 1) True) m1 m2"
      "sem (Rep is_digit 0 None True) m2 c'"
    unfolding sem.simps(3) by blast
  from m(1) obtain u1 r1 where u1: "s = u1 @ r1" "list_all is_digit u1"
      "1 \<le> length u1" "m1 = after p u1 r1"
    using sem_Rep [of is_digit 1 None True p s m1] by auto
  from m(2) obtain u2 r2 where u2: "snd m1 = u2 @ r2"
      "list_all (lit CHR ''.'') u2" "length u2 \<le> 1" "m2 = after (fst m1) u2 r2"
    using sem_Rep [of "lit CHR ''.''" 0 "Some 1" True "fst m1" "snd m1" m2] by auto
  from m(3) obtain u3 r3 where u3: "snd m2 = u3 @ r3"
      "list_all is_digit u3" "c' = after (fst m2) u3 r3"
    using sem_Rep [of is_digit 0 None True "fst m2" "snd m2" c'] by auto
  have r: "snd m1 = r1" "snd m2 = r2" "snd c' = r3"
    using u1(4) u2(4) u3(3) by (simp_all add: after_def)
  have "u2 = [] \<or> u2 = ''.''"
    using u2(2,3) by (cases u2) (auto simp: lit_def)
  moreover have "take (length (snd c) - length (snd c')) (snd c) = u1 @ u2 @ u3"
    using c u1(1) u2(1) u3(1) r by simp
  moreover have "u1 \<noteq> []" using u1(3) by auto
  ultimately show ?thesis unfolding is_decimal_def using u1(2) u3(2) by blast
qed

section \<open>The pass never fails\<close>

lemma not_digit_dot: "\<not> is_digit CHR ''.''"
  by (simp add: is_digit_def)

lemma split_decimal_ok:
  assumes "is_decimal t"
  shows "\<exists>ip fr. split_decimal t = Some (ip, fr)"
proof -
  from assms obtain u1 u2 u3 where t: "t = u1 @ u2 @ u3" "u1 \<noteq> []" "list_all is_digit u1"
      "u2 = [] \<or> u2 = ''.''" "list_all is_digit u3"
    unfolding is_decimal_def by blast
  from t(4) show ?thesis
  proof
    assume "u2 = []"
    then have "list_all is_digit t" "t \<noteq> []" using t by simp_all
    then have tw: "takeWhile is_digit t = t" and dw: "dropWhile is_digit t = []"
      by (simp_all add: list_all_iff)
    show ?thesis unfolding split_decimal_def tw dw Let_def using \<open>t \<noteq> []\<close> by simp
  next
    assume "u2 = ''.''"
    then have t': "t = u1 @ CHR ''.'' # u3" using t(1) by simp
    have tw: "takeWhile is_digit t = u1" and dw: "dropWhile is_digit t = CHR ''.'' # u3"
      using t(3) not_digit_dot unfolding t'
      by (simp_all add: takeWhile_append2 dropWhile_append2 list_all_iff)
    show ?thesis unfolding split_decimal_def tw dw Let_def using t(2,5) by simp
  qed
qed

lemma py_float_ok: "is_decimal t \<Longrightarrow> \<exists>v. py_float t = Inr v"
  using split_decimal_ok [of t] by (auto simp: py_float_def)

lemma latency_group:
  assumes "search (PATTERNS Latency) line = Some m"
  shows "is_decimal (group m)"
proof -
  define A where "A = alts (map istr [''time'', ''latency'', ''rtt'', ''delay''])"
  define B where "B = plus (one_of ''=: '')"
  define C where "C = Seq (star is_space) (istr ''ms'')"
  have p: "PATTERNS Latency = Seq A (Seq B (Seq (Grp numeral_rx) C))"
    by (simp add: A_def B_def C_def numeral_rx_def)
  have gA: "groupless A" unfolding A_def by (rule groupless_alts) (auto simp: groupless_istr)
  have gB: "groupless B" by (simp add: B_def plus_def)
  have gC: "groupless C" by (simp add: C_def star_def groupless_istr)
  from assms obtain c st where st: "st \<in> set (backtrack (PATTERNS Latency) c None)"
      "named m = snd st"
    unfolding search_def using search_from_named by blast
  from st(1) [unfolded p] obtain c1 where "st \<in> set (backtrack (Seq B (Seq (Grp numeral_rx) C)) c1 None)"
    using group_Seq_left [OF gA] by blast
  then obtain c2 where "st \<in> set (backtrack (Seq (Grp numeral_rx) C) c2 None)"
    using group_Seq_left [OF gB] by blast
  then obtain st1 where "st1 \<in> set (backtrack (Grp numeral_rx) c2 None)" "snd st = snd st1"
    using group_Seq_right [OF gC] by blast
  then obtain c' where "sem numeral_rx c2 c'"
      "snd st = Some (take (length (snd c2) - length (snd c')) (snd c2))"
    using group_Grp by metis
  then show ?thesis using sem_numeral st(2) by (simp add: group_def)
qed

lemma packet_loss_group:
  assumes "search (PATTERNS Packet_loss) line = Some m"
  shows "is_decimal (group m)"
proof -
  define C where "C = seqs [opt (lit CHR ''%''), star is_space,
           Alt (Seq (istr ''packet'') (plus is_space)) Eps, istr ''loss'']"
  have p: "PATTERNS Packet_loss = Seq (Grp numeral_rx) C"
    by (simp add: C_def numeral_rx_def)
  have gC: "groupless C" by (simp add: C_def star_def opt_def plus_def groupless_istr)
  from assms obtain c st where st: "st \<in> set (backtrack (PATTERNS Packet_loss) c None)"
      "named m = snd st"
    unfolding search_def using search_from_named by blast
  from st(1) [unfolded p] obtain st1 where "st1 \<in> set (backtrack (Grp numeral_rx) c None)"
      "snd st = snd st1"
    using group_Seq_right [OF gC] by blast
  then obtain c' where "sem numeral_rx c c'"
      "snd st = Some (take (length (snd c) - length (snd c')) (snd c))"
    using group_Grp by metis
  then show ?thesis using sem_numeral st(2) by (simp add: group_def)
qed

lemma check_latency_total: "\<exists>st'. check_latency line n st = Inr st'"
proof (cases "search (PATTERNS Latency) line")
  case None
  then show ?thesis by (simp add: check_latency_def)
next
  case (Some m)
  then obtain v where "py_float (group m) = Inr v" using latency_group py_float_ok by blast
  then show ?thesis using Some by (simp add: check_latency_def del: PATTERNS.simps)
qed

lemma check_packet_loss_total: "\<exists>st'. check_packet_loss line n st = Inr st'"
proof (cases "search (PATTERNS Packet_loss) line")
  case None
  then show ?thesis by (simp add: check_packet_loss_def)
next
  case (Some m)
  then obtain v where "py_float (group m) = Inr v" using packet_loss_group py_float_ok by blast
  then show ?thesis using Some by (simp add: check_packet_loss_def del: PATTERNS.simps)
qed

lemma classify_total: "\<exists>st'. classify n line st = Inr st'"
proof -
  obtain st6 where a: "check_latency line n
      (check_connection_errors line n (check_dns line n (check_firewall line n
        (extract_ports line (extract_ips line st))))) = Inr st6"
    using check_latency_total by blast
  obtain st7 where b: "check_packet_loss line n st6 = Inr st7"
    using check_packet_loss_total by blast
  show ?thesis by (simp add: classify_def Let_def a b)
qed

lemma parse_loop_total: "\<exists>st'. parse_loop n ls st = Inr st'"
proof (induction ls arbitrary: n st)
  case Nil
  show ?case by simp
next
  case (Cons l ls)
  obtain st1 where "classify n l st = Inr st1" using classify_total by blast
  then show ?case using Cons.IH [of "n + 1" st1] by simp
qed






section \<open>Line numbers\<close>

lemma fold_keeps: "(\<And>x s. P (f x s) = P s) \<Longrightarrow> P (fold f xs st) = P st"
  by (induction xs arbitrary: st) auto

lemma extract_ips_keeps:
  "line_numbers (extract_ips line st) = line_numbers st"
  "total_lines (extract_ips line st) = total_lines st"
  unfolding extract_ips_def
  by (rule fold_keeps, simp add: line_numbers_def Let_def)+

lemma extract_ports_keeps:
  "line_numbers (extract_ports line st) = line_numbers st"
  "total_lines (extract_ports line st) = total_lines st"
  unfolding extract_ports_def
  by (rule fold_keeps, simp add: line_numbers_def)+

lemma check_firewall_keeps:
  "line_numbers (check_firewall line n st) \<subseteq> insert n (line_numbers st)"
  "total_lines (check_firewall line n st) = total_lines st"
  by (auto simp: check_firewall_def fold_denied_ips line_numbers_def)

lemma check_dns_keeps:
  "line_numbers (check_dns line n st) \<subseteq> insert n (line_numbers st)"
  "total_lines (check_dns line n st) = total_lines st"
  by (auto simp: check_dns_def line_numbers_def)

lemma check_connection_errors_keeps:
  "line_numbers (check_connection_errors line n st) \<subseteq> insert n (line_numbers st)"
  "total_lines (check_connection_errors line n st) = total_lines st"
  by (auto simp: check_connection_errors_def line_numbers_def)

lemma check_dhcp_keeps:
  "line_numbers (check_dhcp line n st) \<subseteq> insert n (line_numbers st)"
  "total_lines (check_dhcp line n st) = total_lines st"
  by (auto simp: check_dhcp_def line_numbers_def)

lemma extract_timestamp_bucket_keeps:
  "line_numbers (extract_timestamp_bucket line st) = line_numbers st"
  "total_lines (extract_timestamp_bucket line st) = total_lines st"
  by (auto simp: extract_timestamp_bucket_def line_numbers_def Let_def split: option.splits
           simp del: PATTERNS.simps)

lemma check_latency_keeps:
  assumes "check_latency line n st = Inr st'"
  shows "line_numbers st' \<subseteq> insert n (line_numbers st)" "total_lines st' = total_lines st"
  using assms
  by (auto simp: check_latency_def line_numbers_def split: option.splits sum.splits if_splits
           simp del: PATTERNS.simps)

lemma check_packet_loss_keeps:
  assumes "check_packet_loss line n st = Inr st'"
  shows "line_numbers st' \<subseteq> insert n (line_numbers st)" "total_lines st' = total_lines st"
  using assms
  by (auto simp: check_packet_loss_def line_numbers_def split: option.splits sum.splits if_splits
           simp del: PATTERNS.simps)

lemma classify_keeps:
  assumes "classify n line st = Inr st'"
  shows "line_numbers st' \<subseteq> insert n (line_numbers st)" "total_lines st' = total_lines st"
proof -
  define st2 where "st2 = extract_ports line (extract_ips line st)"
  define st3 where "st3 = check_firewall line n st2"
  define st4 where "st4 = check_dns line n st3"
  define st5 where "st5 = check_connection_errors line n st4"
  from assms obtain st6 st7 where s: "check_latency line n st5 = Inr st6"
      "check_packet_loss line n st6 = Inr st7"
      "st' = extract_timestamp_bucket line (check_dhcp line n st7)"
    by (auto simp: classify_def Let_def st5_def st4_def st3_def st2_def split: sum.splits)
  have 2: "line_numbers st2 = line_numbers st"
    by (simp add: st2_def extract_ports_keeps extract_ips_keeps)
  have 3: "line_numbers st3 \<subseteq> insert n (line_numbers st2)"
    unfolding st3_def by (rule check_firewall_keeps)
  have 4: "line_numbers st4 \<subseteq> insert n (line_numbers st3)"
    unfolding st4_def by (rule check_dns_keeps)
  have 5: "line_numbers st5 \<subseteq> insert n (line_numbers st4)"
    unfolding st5_def by (rule check_connection_errors_keeps)
  have 6: "line_numbers st6 \<subseteq> insert n (line_numbers st5)"
    by (rule check_latency_keeps(1) [OF s(1)])
  have 7: "line_numbers st7 \<subseteq> insert n (line_numbers st6)"
    by (rule check_packet_loss_keeps(1) [OF s(2)])
  have 8: "line_numbers st' \<subseteq> insert n (line_numbers st7)"
    unfolding s(3) extract_timestamp_bucket_keeps by (rule check_dhcp_keeps)
  show "line_numbers st' \<subseteq> insert n (line_numbers st)"
    using 2 3 4 5 6 7 8 by blast
  have "total_lines st5 = total_lines st"
    by (simp add: st5_def st4_def st3_def st2_def check_connection_errors_keeps check_dns_keeps
        check_firewall_keeps extract_ports_keeps extract_ips_keeps)
  then show "total_lines st' = total_lines st"
    using check_latency_keeps(2) [OF s(1)] check_packet_loss_keeps(2) [OF s(2)]
    unfolding s(3) by (simp add: check_dhcp_keeps extract_timestamp_bucket_keeps)
qed

lemma parse_loop_keeps:
  "parse_loop n ls st = Inr st' \<Longrightarrow>
     line_numbers st' \<subseteq> line_numbers st \<union> {n ..< n + int (length ls)}
     \<and> total_lines st' = total_lines st"
proof (induction ls arbitrary: n st)
  case Nil
  then show ?case by simp
next
  case (Cons l ls)
  from Cons.prems obtain st1 where s: "classify n l st = Inr st1"
      "parse_loop (n + 1) ls st1 = Inr st'"
    by (auto split: sum.splits)
  have a: "line_numbers st' \<subseteq> line_numbers st1 \<union> {n + 1 ..< n + 1 + int (length ls)}"
    and t: "total_lines st' = total_lines st1"
    using Cons.IH [OF s(2)] by simp_all
  have b: "line_numbers st1 \<subseteq> insert n (line_numbers st)"
    by (rule classify_keeps(1) [OF s(1)])
  have c: "{n + 1 ..< n + 1 + int (length ls)} \<subseteq> {n ..< n + int (length (l # ls))}"
    by auto
  have d: "n \<in> {n ..< n + int (length (l # ls))}" by simp
  have "line_numbers st' \<subseteq> line_numbers st \<union> {n ..< n + int (length (l # ls))}"
    using a b c d by blast
  then show ?case using t classify_keeps(2) [OF s(1)] by simp
qed

lemma length_split_lines:
  "length (split_lines acc t)
     = count_list t nl + (if t = [] then (if acc = [] then 0 else 1)
                          else if last t = nl then 0 else 1)"
  by (induction t arbitrary: acc) (auto simp: nl_def)

text \<open>
  Claim C9. After loading and parsing a file, \<open>total_lines\<close> is the number of lines
  \<^verbatim>\<open>readlines\<close> returned (one for every newline, and one more for text after the last
  newline), and the line number of every match record lies between 1 and \<open>total_lines\<close>.
\<close>

theorem line_numbers_in_range:
  "fs path = Some content \<Longrightarrow>
     \<exists>st st'. load fs (init path) = Inr st \<and> parse st = Inr st'
       \<and> lines st = readlines content
       \<and> total_lines st' = int (length (readlines content))
       \<and> length (readlines content)
           = count_list (universal_newlines content) nl
             + (if universal_newlines content = [] \<or> last (universal_newlines content) = nl
                then 0 else 1)
       \<and> line_numbers st' \<subseteq> {1 .. total_lines st'}"
proof -
  assume f: "fs path = Some content"
  define st where "st = (init path)\<lparr> lines := readlines content,
                                     total_lines := int (length (readlines content)) \<rparr>"
  have l: "load fs (init path) = Inr st"
    using f by (simp add: load_def st_def init_def Let_def)
  obtain st' where p: "parse_loop 1 (readlines content) st = Inr st'"
    using parse_loop_total by blast
  have p': "parse st = Inr st'" using p by (simp add: parse_def st_def)
  have e: "line_numbers st = {}" by (simp add: st_def init_def line_numbers_def)
  have k: "line_numbers st' \<subseteq> {1 ..< 1 + int (length (readlines content))}"
      "total_lines st' = int (length (readlines content))"
    using parse_loop_keeps [OF p] e by (simp_all add: st_def)
  have ls: "lines st = readlines content" by (simp add: st_def)
  have n: "length (readlines content)
           = count_list (universal_newlines content) nl
             + (if universal_newlines content = [] \<or> last (universal_newlines content) = nl
                then 0 else 1)"
    unfolding readlines_def length_split_lines by simp
  have "line_numbers st' \<subseteq> {1 .. total_lines st'}" using k by auto
  then show ?thesis using l p' k(2) n ls by blast
qed


theorem line_numbers_in_range_witness:
  "[''log'' \<mapsto> ''DROP 1.2.3.4'' @ [nl] @ ''rtt=250 ms''] ''log''
      = Some (''DROP 1.2.3.4'' @ [nl] @ ''rtt=250 ms'')
   \<and> (\<exists>st st'. load [''log'' \<mapsto> ''DROP 1.2.3.4'' @ [nl] @ ''rtt=250 ms''] (init ''log'') = Inr st
         \<and> parse st = Inr st' \<and> total_lines st' = 2 \<and> line_numbers st' \<subseteq> {1 .. 2})"
proof -
  have f: "[''log'' \<mapsto> ''DROP 1.2.3.4'' @ [nl] @ ''rtt=250 ms''] ''log''
             = Some (''DROP 1.2.3.4'' @ [nl] @ ''rtt=250 ms'')"
    by simp
  have r: "readlines (''DROP 1.2.3.4'' @ [nl] @ ''rtt=250 ms'')
             = [''DROP 1.2.3.4'' @ [nl], ''rtt=250 ms'']"
    by (simp add: readlines_def nl_def)
  show ?thesis
    using line_numbers_in_range
      [of "[''log'' \<mapsto> ''DROP 1.2.3.4'' @ [nl] @ ''rtt=250 ms'']" "''log''"
          "''DROP 1.2.3.4'' @ [nl] @ ''rtt=250 ms''", OF f] f
    unfolding r by auto
qed

section \<open>Source and destination addresses\<close>

lemma fold_const: "fold (\<lambda>_. F) xs st = (F ^^ length xs) st"
  by (induction xs arbitrary: st) (auto simp: funpow_swap1)

lemma extract_ips_source:
  assumes "findall (PATTERNS Ip_address) line = ip # rest"
  shows "count_of (source_ips (extract_ips line st)) ip
           = count_of (source_ips st) ip + 1 + int (length rest)"
proof -
  define F :: "network_log_parser \<Rightarrow> network_log_parser"
    where "F = (\<lambda>st. let ips = ip # rest;
                         st1 = (if 1 \<le> length ips
                                then st\<lparr> source_ips := incr (ips ! 0) (source_ips st) \<rparr> else st)
                     in if 2 \<le> length ips
                        then st1\<lparr> dest_ips := incr (ips ! 1) (dest_ips st1) \<rparr> else st1)"
  have n: "length (finditer (PATTERNS Ip_address) line) = Suc (length rest)"
    using assms by (metis findall_def length_map length_Cons)
  have e: "extract_ips line st = (F ^^ Suc (length rest)) st"
    unfolding extract_ips_def assms by (simp only: fold_const n F_def)
  have "count_of (source_ips ((F ^^ k) st)) ip = count_of (source_ips st) ip + int k" for k
    by (induction k) (auto simp: F_def Let_def count_of_incr)
  from this [of "Suc (length rest)"] show ?thesis unfolding e by simp
qed

lemma findall_scenario_1:
  "findall (PATTERNS Ip_address) scenario_1 = [''10.0.0.5'', ''10.0.0.9'']"
  by code_simp

lemma extract_ips_scenario_1:
  "source_ips (extract_ips scenario_1 st) = incr ''10.0.0.5'' (incr ''10.0.0.5'' (source_ips st))"
  "dest_ips (extract_ips scenario_1 st) = incr ''10.0.0.9'' (incr ''10.0.0.9'' (dest_ips st))"
proof -
  have "length (finditer (PATTERNS Ip_address) scenario_1) = 2"
    using findall_scenario_1 by (metis findall_def length_map length_Cons list.size(3) numeral_2_eq_2)
  then obtain a b where ab: "finditer (PATTERNS Ip_address) scenario_1 = [a, b]"
    by (metis (no_types) length_0_conv length_Suc_conv numeral_2_eq_2)
  show "source_ips (extract_ips scenario_1 st)
          = incr ''10.0.0.5'' (incr ''10.0.0.5'' (source_ips st))"
    unfolding extract_ips_def findall_scenario_1 ab by (simp add: Let_def)
  show "dest_ips (extract_ips scenario_1 st)
          = incr ''10.0.0.9'' (incr ''10.0.0.9'' (dest_ips st))"
    unfolding extract_ips_def findall_scenario_1 ab by (simp add: Let_def)
qed

lemma extract_ports_ip_tables:
  "source_ips (extract_ports line st) = source_ips st"
  "dest_ips (extract_ports line st) = dest_ips st"
  unfolding extract_ports_def by (rule fold_keeps, simp)+

lemma steps_ip_tables:
  "source_ips (check_firewall line n st) = source_ips st"
  "dest_ips (check_firewall line n st) = dest_ips st"
  "source_ips (check_dns line n st) = source_ips st"
  "dest_ips (check_dns line n st) = dest_ips st"
  "source_ips (check_connection_errors line n st) = source_ips st"
  "dest_ips (check_connection_errors line n st) = dest_ips st"
  "source_ips (check_dhcp line n st) = source_ips st"
  "dest_ips (check_dhcp line n st) = dest_ips st"
  by (simp_all add: check_firewall_def fold_denied_ips check_dns_def check_connection_errors_def
        check_dhcp_def del: PATTERNS.simps)

lemma extract_timestamp_bucket_ip_tables:
  "source_ips (extract_timestamp_bucket line st) = source_ips st"
  "dest_ips (extract_timestamp_bucket line st) = dest_ips st"
  by (simp_all add: extract_timestamp_bucket_def Let_def split: option.splits
        del: PATTERNS.simps)

lemma check_latency_ip_tables:
  assumes "check_latency line n st = Inr st'"
  shows "source_ips st' = source_ips st" "dest_ips st' = dest_ips st"
  using assms
  by (auto simp: check_latency_def split: option.splits sum.splits if_splits
           simp del: PATTERNS.simps)

lemma check_packet_loss_ip_tables:
  assumes "check_packet_loss line n st = Inr st'"
  shows "source_ips st' = source_ips st" "dest_ips st' = dest_ips st"
  using assms
  by (auto simp: check_packet_loss_def split: option.splits sum.splits if_splits
           simp del: PATTERNS.simps)

lemma classify_ip_tables:
  assumes "classify n line st = Inr st'"
  shows "source_ips st' = source_ips (extract_ips line st)"
    and "dest_ips st' = dest_ips (extract_ips line st)"
proof -
  define st5 where "st5 = check_connection_errors line n (check_dns line n
      (check_firewall line n (extract_ports line (extract_ips line st))))"
  from assms obtain st6 st7 where s: "check_latency line n st5 = Inr st6"
      "check_packet_loss line n st6 = Inr st7"
      "st' = extract_timestamp_bucket line (check_dhcp line n st7)"
    by (auto simp: classify_def Let_def st5_def split: sum.splits)
  have 5: "source_ips st5 = source_ips (extract_ips line st)"
      "dest_ips st5 = dest_ips (extract_ips line st)"
    by (simp_all add: st5_def steps_ip_tables extract_ports_ip_tables)
  show "source_ips st' = source_ips (extract_ips line st)"
    unfolding s(3) extract_timestamp_bucket_ip_tables steps_ip_tables
      check_packet_loss_ip_tables(1) [OF s(2)] check_latency_ip_tables(1) [OF s(1)] 5 ..
  show "dest_ips st' = dest_ips (extract_ips line st)"
    unfolding s(3) extract_timestamp_bucket_ip_tables steps_ip_tables
      check_packet_loss_ip_tables(2) [OF s(2)] check_latency_ip_tables(2) [OF s(1)] 5 ..
qed

text \<open>
  Claim C1. The loop of \<^verbatim>\<open>_extract_ips\<close> runs once for every IPv4 literal of the line
  and each round counts the first literal as a source and the second as a destination: a
  line with two literals counts each of them twice. On the file of the first scenario the
  final source table is \<open>{10.0.0.5: 2}\<close> and the destination table \<open>{10.0.0.9: 2}\<close>,
  where the claim has one each.
\<close>

theorem extract_ips_counts_per_literal:
  "\<exists>st st'. load [''log'' \<mapsto> scenario_1] (init ''log'') = Inr st \<and> parse st = Inr st'
      \<and> lines st = [scenario_1]
      \<and> source_ips st' = [(''10.0.0.5'', 2)] \<and> dest_ips st' = [(''10.0.0.9'', 2)]"
proof -
  have r: "readlines scenario_1 = [scenario_1]"
    by (simp add: readlines_def scenario_1_def)
  define st where "st = (init ''log'')\<lparr> lines := [scenario_1], total_lines := 1 \<rparr>"
  have l: "load [''log'' \<mapsto> scenario_1] (init ''log'') = Inr st"
    by (simp add: load_def r st_def init_def)
  obtain st1 where c: "classify 1 scenario_1 st = Inr st1" using classify_total by blast
  have p: "parse st = Inr st1" using c by (simp add: parse_def st_def)
  have "source_ips st1 = [(''10.0.0.5'', 2)]" "dest_ips st1 = [(''10.0.0.9'', 2)]"
    unfolding classify_ip_tables [OF c] extract_ips_scenario_1
    by (simp_all add: st_def init_def)
  then show ?thesis using l p by (auto simp: st_def)
qed

section \<open>The syslog timestamp\<close>

lemma texts_Eps: "texts Eps (\<lambda>u. u = [])"
  by (auto simp: texts_def after_def)

lemma texts_Cls: "texts (Cls f) (\<lambda>u. \<exists>x. u = [x] \<and> f x)"
  unfolding texts_def sem_Cls
proof (intro allI iffI)
  fix p s c'
  assume "\<exists>x rest. s = x # rest \<and> f x \<and> c' = after p [x] rest"
  then obtain x rest where "s = [x] @ rest" "f x" "c' = after p [x] rest" by auto
  then show "\<exists>u rest. s = u @ rest \<and> (\<exists>x. u = [x] \<and> f x) \<and> c' = after p u rest" by blast
next
  fix p s c'
  assume "\<exists>u rest. s = u @ rest \<and> (\<exists>x. u = [x] \<and> f x) \<and> c' = after p u rest"
  then show "\<exists>x rest. s = x # rest \<and> f x \<and> c' = after p [x] rest" by auto
qed

lemma texts_Rep:
  "texts (Rep f lo hi greedy)
     (\<lambda>u. list_all f u \<and> lo \<le> length u \<and> length u \<le> (case hi of None \<Rightarrow> length u | Some h \<Rightarrow> h))"
  unfolding texts_def sem_Rep by auto

lemma texts_Grp: "texts a A \<Longrightarrow> texts (Grp a) A"
  by (simp add: texts_def)

lemma texts_Seq:
  assumes "texts a A" "texts b B"
  shows "texts (Seq a b) (\<lambda>w. \<exists>u v. w = u @ v \<and> A u \<and> B v)"
  unfolding texts_def
proof (intro allI iffI)
  fix p s c'
  assume "sem (Seq a b) (p, s) c'"
  then obtain m where m: "sem a (p, s) m" "sem b m c'" by auto
  from m(1) assms(1) obtain u r1 where u: "s = u @ r1" "A u" "m = after p u r1"
    unfolding texts_def by blast
  have "sem b (fst m, r1) c'" using m(2) u(3) by (simp add: after_def)
  with assms(2) obtain v rest where v: "r1 = v @ rest" "B v" "c' = after (fst m) v rest"
    unfolding texts_def by blast
  have "c' = after p (u @ v) rest" using v(3) u(3) by (simp add: after_def)
  then show "\<exists>w rest. s = w @ rest \<and> (\<exists>u v. w = u @ v \<and> A u \<and> B v) \<and> c' = after p w rest"
    using u(1,2) v(1,2) by (intro exI [of _ "u @ v"] exI [of _ rest]) auto
next
  fix p s c'
  assume "\<exists>w rest. s = w @ rest \<and> (\<exists>u v. w = u @ v \<and> A u \<and> B v) \<and> c' = after p w rest"
  then obtain u v rest where h: "s = (u @ v) @ rest" "A u" "B v" "c' = after p (u @ v) rest"
    by blast
  have s: "s = u @ (v @ rest)" using h(1) by simp
  have 1: "sem a (p, s) (after p u (v @ rest))"
    using assms(1) s h(2) unfolding texts_def by blast
  have "sem b (fst (after p u (v @ rest)), v @ rest) (after (fst (after p u (v @ rest))) v rest)"
    using assms(2) h(3) unfolding texts_def by blast
  then have 2: "sem b (after p u (v @ rest)) c'"
    unfolding after_after h(4) by (simp add: after_def)
  show "sem (Seq a b) (p, s) c'" unfolding sem.simps(3) using 1 2 by blast
qed

lemma texts_seqs_Cons:
  "texts r A \<Longrightarrow> texts (seqs rs) B \<Longrightarrow> texts (seqs (r # rs)) (\<lambda>w. \<exists>u v. w = u @ v \<and> A u \<and> B v)"
  using texts_Seq [of r A "seqs rs" B] unfolding texts_def sem_seqs_Cons by simp

lemma texts_cong: "texts r A \<Longrightarrow> (\<And>u. A u = B u) \<Longrightarrow> texts r B"
  by (simp add: texts_def)

lemma texts_digits2: "texts (exactly 2 is_digit) (\<lambda>u. length u = 2 \<and> list_all is_digit u)"
  by (rule texts_cong [OF texts_Rep [of is_digit 2 "Some 2" True, folded exactly_def]]) auto

lemma texts_colon: "texts (Cls (lit CHR '':'')) (\<lambda>u. u = '':'')"
  by (rule texts_cong [OF texts_Cls]) (auto simp: lit_def)

lemma texts_hms: "texts (seqs hms) is_hms"
proof -
  have "texts (seqs hms)
          (\<lambda>w. \<exists>u v. w = u @ v \<and> (length u = 2 \<and> list_all is_digit u) \<and>
             (\<exists>u1 v1. v = u1 @ v1 \<and> u1 = '':'' \<and>
               (\<exists>u2 v2. v1 = u2 @ v2 \<and> (length u2 = 2 \<and> list_all is_digit u2) \<and>
                 (\<exists>u3 v3. v2 = u3 @ v3 \<and> u3 = '':'' \<and> (length v3 = 2 \<and> list_all is_digit v3)))))"
    (is "texts _ ?P")
    unfolding hms_def
    by (intro texts_seqs_Cons texts_digits2 texts_colon) (simp add: texts_digits2)
  moreover have "?P w = is_hms w" for w
  proof
    assume "?P w"
    then obtain h m s where "w = h @ '':'' @ m @ '':'' @ s"
      "length h = 2" "list_all is_digit h" "length m = 2" "list_all is_digit m"
      "length s = 2" "list_all is_digit s"
      by blast
    then show "is_hms w" unfolding is_hms_def by blast
  next
    assume "is_hms w"
    then obtain h m s where h: "w = h @ '':'' @ m @ '':'' @ s"
      "length h = 2" "list_all is_digit h" "length m = 2" "list_all is_digit m"
      "length s = 2" "list_all is_digit s"
      unfolding is_hms_def by blast
    show "?P w"
      apply (rule exI [of _ h], rule exI [of _ "'':'' @ m @ '':'' @ s"])
      apply (intro conjI h)
      apply (rule exI [of _ "'':''"], rule exI [of _ "m @ '':'' @ s"])
      apply (intro conjI h refl)
      apply (rule exI [of _ m], rule exI [of _ "'':'' @ s"])
      apply (intro conjI h refl)
      apply (rule exI [of _ "'':''"], rule exI [of _ s])
      apply (intro conjI h refl)
      done
  qed
  ultimately show ?thesis by (rule texts_cong)
qed

lemma texts_word3: "texts (exactly 3 is_word) (\<lambda>u. length u = 3 \<and> list_all is_word u)"
  by (rule texts_cong [OF texts_Rep [of is_word 3 "Some 3" True, folded exactly_def]]) auto

lemma texts_spaces: "texts (plus is_space) (\<lambda>u. u \<noteq> [] \<and> list_all is_space u)"
  by (rule texts_cong [OF texts_Rep [of is_space 1 None True, folded plus_def]])
     (auto simp: Suc_le_eq)

lemma texts_day:
  "texts (between 1 2 is_digit) (\<lambda>u. (length u = 1 \<or> length u = 2) \<and> list_all is_digit u)"
  by (rule texts_cong [OF texts_Rep [of is_digit 1 "Some 2" True, folded between_def]]) auto

lemma texts_syslog_stamp:
  "texts (seqs ([exactly 3 is_word, plus is_space, between 1 2 is_digit, plus is_space] @ hms))
     is_syslog_stamp"
proof -
  have "texts (seqs (exactly 3 is_word # plus is_space # between 1 2 is_digit
                       # plus is_space # hms))
          (\<lambda>x. \<exists>w v. x = w @ v \<and> (length w = 3 \<and> list_all is_word w) \<and>
             (\<exists>sp1 v1. v = sp1 @ v1 \<and> (sp1 \<noteq> [] \<and> list_all is_space sp1) \<and>
               (\<exists>d v2. v1 = d @ v2 \<and> ((length d = 1 \<or> length d = 2) \<and> list_all is_digit d) \<and>
                 (\<exists>sp2 t. v2 = sp2 @ t \<and> (sp2 \<noteq> [] \<and> list_all is_space sp2) \<and> is_hms t))))"
    (is "texts _ ?P")
    by (intro texts_seqs_Cons texts_word3 texts_spaces texts_day texts_hms)
  moreover have "?P x = is_syslog_stamp x" for x
  proof
    assume "?P x"
    then obtain w sp1 d sp2 t where "x = w @ sp1 @ d @ sp2 @ t"
      "length w = 3" "list_all is_word w" "sp1 \<noteq> []" "list_all is_space sp1"
      "length d = 1 \<or> length d = 2" "list_all is_digit d"
      "sp2 \<noteq> []" "list_all is_space sp2" "is_hms t"
      by blast
    then show "is_syslog_stamp x" unfolding is_syslog_stamp_def by blast
  next
    assume "is_syslog_stamp x"
    then obtain w sp1 d sp2 t where h: "x = w @ sp1 @ d @ sp2 @ t"
      "length w = 3" "list_all is_word w" "sp1 \<noteq> []" "list_all is_space sp1"
      "length d = 1 \<or> length d = 2" "list_all is_digit d"
      "sp2 \<noteq> []" "list_all is_space sp2" "is_hms t"
      unfolding is_syslog_stamp_def by blast
    show "?P x"
      apply (rule exI [of _ w], rule exI [of _ "sp1 @ d @ sp2 @ t"])
      apply (intro conjI h)
      apply (rule exI [of _ sp1], rule exI [of _ "d @ sp2 @ t"])
      apply (intro conjI h refl)
      apply (rule exI [of _ d], rule exI [of _ "sp2 @ t"])
      apply (intro conjI h refl)
      apply (rule exI [of _ sp2], rule exI [of _ t])
      apply (intro conjI h refl)
      done
  qed
  ultimately have "texts (seqs (exactly 3 is_word # plus is_space # between 1 2 is_digit
                       # plus is_space # hms)) is_syslog_stamp"
    by (rule texts_cong)
  then show ?thesis by simp
qed

lemma sem_at_start:
  "fst (after None pre post) = None \<and> sem r (after None pre post) c'
     \<longleftrightarrow> pre = [] \<and> sem r (None, post) c'"
  by (cases "pre = []") (auto simp: after_def)

text \<open>
  Claim C4, as stated, asks that the three characters which open a syslog timestamp be
  a month abbreviation. The pattern asks for three word characters, \<^verbatim>\<open>\w{3}\<close>, and no
  more: a line that opens with \<^verbatim>\<open>Foo\<close>, or with three digits, is matched as well.
\<close>

theorem syslog_counterexample:
  "found Timestamp_syslog ''Foo  1 10:15:00 link down''
     \<and> take 3 ''Foo  1 10:15:00 link down'' \<notin> set month_abbreviations
   \<and> found Timestamp_syslog ''123 4 05:06:07''
     \<and> take 3 ''123 4 05:06:07'' \<notin> set month_abbreviations"
proof -
  have 1: "found Timestamp_syslog ''Foo  1 10:15:00 link down''" by code_simp
  have 2: "found Timestamp_syslog ''123 4 05:06:07''" by code_simp
  show ?thesis using 1 2 by (simp add: month_abbreviations_def)
qed

text \<open>
  Claim C4, amended. The syslog pattern matches a line if and only if the line starts
  with exactly three word characters (letters, digits or the underscore), followed by at
  least one blank, one or two digits, at least one blank, and a time of day of the form
  two digits, colon, two digits, colon, two digits; in particular a line whose first
  three characters are not all word characters is not matched.
\<close>

theorem syslog_stamp_language:
  "(found Timestamp_syslog line \<longleftrightarrow> (\<exists>u rest. line = u @ rest \<and> is_syslog_stamp u))
   \<and> (found Timestamp_syslog line \<longrightarrow> 3 \<le> length line \<and> list_all is_word (take 3 line))"
proof -
  define B where "B = seqs ([exactly 3 is_word, plus is_space, between 1 2 is_digit,
                             plus is_space] @ hms)"
  have B: "sem B (p, s) c' \<longleftrightarrow> (\<exists>u rest. s = u @ rest \<and> is_syslog_stamp u \<and> c' = after p u rest)"
    for p s c'
    using texts_syslog_stamp unfolding texts_def B_def by blast
  have body: "sem (PATTERNS Timestamp_syslog) (after None pre post) c'
                \<longleftrightarrow> pre = [] \<and> (\<exists>u rest. post = u @ rest \<and> is_syslog_stamp u
                                        \<and> c' = after None u rest)" for pre post c'
  proof -
    have "PATTERNS Timestamp_syslog = Seq Bol (Grp B)" by (simp add: B_def)
    then have "sem (PATTERNS Timestamp_syslog) (after None pre post) c'
            \<longleftrightarrow> fst (after None pre post) = None \<and> sem B (after None pre post) c'"
      by simp
    then show ?thesis unfolding sem_at_start B .
  qed
  have iff: "found Timestamp_syslog line \<longleftrightarrow> (\<exists>u rest. line = u @ rest \<and> is_syslog_stamp u)"
    unfolding found_iff body by blast
  have "3 \<le> length line \<and> list_all is_word (take 3 line)"
    if "line = u @ rest" "is_syslog_stamp u" for u rest
  proof -
    from that(2) obtain w v where "u = w @ v" "length w = 3" "list_all is_word w"
      unfolding is_syslog_stamp_def by blast
    then show ?thesis using that(1) by simp
  qed
  with iff show ?thesis by blast
qed

theorem syslog_stamp_language_witness:
  "is_syslog_stamp ''May  1 10:15:00'' \<and> found Timestamp_syslog ''May  1 10:15:00 link down''
   \<and> list_all is_word ''May''
   \<and> \<not> found Timestamp_syslog ''  May  1 10:15:00''"
proof -
  have d: "list_all is_digit ''10''" "list_all is_digit ''15''" "list_all is_digit ''00''"
    "list_all is_digit ''1''" "list_all is_space ''  ''" "list_all is_space '' ''"
    "list_all is_word ''May''"
    by code_simp+
  have "''10:15:00'' = ''10'' @ '':'' @ ''15'' @ '':'' @ ''00''
          \<and> length ''10'' = 2 \<and> list_all is_digit ''10'' \<and> length ''15'' = 2
          \<and> list_all is_digit ''15'' \<and> length ''00'' = 2 \<and> list_all is_digit ''00''"
    using d by simp
  then have h: "is_hms ''10:15:00''"
    unfolding is_hms_def by blast
  have "''May  1 10:15:00'' = ''May'' @ ''  '' @ ''1'' @ '' '' @ ''10:15:00''
        \<and> length ''May'' = 3 \<and> list_all is_word ''May''
        \<and> ''  '' \<noteq> [] \<and> list_all is_space ''  ''
        \<and> (length ''1'' = 1 \<or> length ''1'' = 2) \<and> list_all is_digit ''1''
        \<and> '' '' \<noteq> [] \<and> list_all is_space '' ''
        \<and> is_hms ''10:15:00''"
    using d h by simp
  then have s: "is_syslog_stamp ''May  1 10:15:00''"
    unfolding is_syslog_stamp_def by blast
  have "''May  1 10:15:00 link down'' = ''May  1 10:15:00'' @ '' link down''" by simp
  with s have "\<exists>u rest. ''May  1 10:15:00 link down'' = u @ rest \<and> is_syslog_stamp u"
    by blast
  then have f: "found Timestamp_syslog ''May  1 10:15:00 link down''"
    using syslog_stamp_language [of "''May  1 10:15:00 link down''"] by blast
  have n: "\<not> list_all is_word (take 3 ''  May  1 10:15:00'')"
    by code_simp
  have g: "\<not> found Timestamp_syslog ''  May  1 10:15:00''"
    using syslog_stamp_language [of "''  May  1 10:15:00''"] n by blast
  show ?thesis using s f g d(7) by blast
qed

end
